theory Spec2Isabelle
  imports Complex_Main
begin

section \<open>JavaScript numbers\<close>

text \<open>
  The arrow code computes with JavaScript numbers, which are IEEE 754 doubles, and reads
  arrays by index. A finite double other than negative zero is \<open>Num\<close> of its value, with
  \<open>Num 0\<close> for positive zero; negative zero, the two infinities and \<open>NaN\<close> are values of
  their own. A read outside an array does not throw: it yields \<open>undefined\<close>, which
  arithmetic takes for \<open>NaN\<close>.
\<close>

datatype jsval = Num real | NegZero | Infinity | NegInfinity | NaN | Undefined

text \<open>
  The reals that are doubles: an integer of magnitude below \<open>2 ^ 53\<close> times a power of
  two, the exponent between \<open>-1074\<close> and \<open>971\<close>.
\<close>

definition double :: "real \<Rightarrow> bool" where
  "double x \<longleftrightarrow>
     (\<exists>m e :: int. x = of_int m * 2 powr of_int e \<and> \<bar>m\<bar> < 2 ^ 53 \<and> - 1074 \<le> e \<and> e \<le> 971)"

text \<open>
  Rounding to the nearest double, a tie going to the even neighbour. \<open>ulp x\<close> is the
  distance between the doubles around \<open>x\<close>; a result of magnitude \<open>2 ^ 1024\<close> is out of
  range and becomes an infinity, and a result that rounds to zero keeps the sign of \<open>x\<close>.
\<close>

definition ulp :: "real \<Rightarrow> real" where
  "ulp x = 2 powr of_int (max (\<lfloor>log 2 \<bar>x\<bar>\<rfloor> - 52) (- 1074))"

definition round_even :: "real \<Rightarrow> int" where
  "round_even q =
     (if q - of_int \<lfloor>q\<rfloor> < 1 / 2 then \<lfloor>q\<rfloor>
      else if 1 / 2 < q - of_int \<lfloor>q\<rfloor> then \<lfloor>q\<rfloor> + 1
      else if even \<lfloor>q\<rfloor> then \<lfloor>q\<rfloor>
      else \<lfloor>q\<rfloor> + 1)"

definition nearest :: "real \<Rightarrow> real" where
  "nearest x = of_int (round_even (x / ulp x)) * ulp x"

definition fl :: "real \<Rightarrow> jsval" where
  "fl x =
     (if x = 0 then Num 0
      else if 2 ^ 1024 \<le> \<bar>nearest x\<bar> then (if 0 < x then Infinity else NegInfinity)
      else if nearest x = 0 then (if x < 0 then NegZero else Num 0)
      else Num (nearest x))"

text \<open>What kind of number a value is, its sign, and its value when it is finite.\<close>

fun is_nan :: "jsval \<Rightarrow> bool" where
  "is_nan NaN = True"
| "is_nan Undefined = True"
| "is_nan _ = False"

fun is_inf :: "jsval \<Rightarrow> bool" where
  "is_inf Infinity = True"
| "is_inf NegInfinity = True"
| "is_inf _ = False"

fun is_zero :: "jsval \<Rightarrow> bool" where
  "is_zero (Num a) = (a = 0)"
| "is_zero NegZero = True"
| "is_zero _ = False"

fun is_neg :: "jsval \<Rightarrow> bool" where
  "is_neg (Num a) = (a < 0)"
| "is_neg NegZero = True"
| "is_neg NegInfinity = True"
| "is_neg _ = False"

fun val :: "jsval \<Rightarrow> real" where
  "val (Num a) = a"
| "val _ = 0"

definition signed_zero :: "bool \<Rightarrow> jsval" where
  "signed_zero negative = (if negative then NegZero else Num 0)"

definition signed_inf :: "bool \<Rightarrow> jsval" where
  "signed_inf negative = (if negative then NegInfinity else Infinity)"

text \<open>
  The operators, as the language defines them on doubles: the exact result rounded, with
  the rules for zeros, infinities and \<open>NaN\<close>. A sum that is exactly zero is negative
  zero only when both summands are negative; a product or quotient that is zero or
  infinite takes its sign from the signs of the operands.
\<close>

fun js_neg :: "jsval \<Rightarrow> jsval" where
  "js_neg (Num a) = (if a = 0 then NegZero else Num (- a))"
| "js_neg NegZero = Num 0"
| "js_neg Infinity = NegInfinity"
| "js_neg NegInfinity = Infinity"
| "js_neg _ = NaN"

definition js_add :: "jsval \<Rightarrow> jsval \<Rightarrow> jsval" where
  "js_add a b =
     (if is_nan a \<or> is_nan b then NaN
      else if is_inf a \<and> is_inf b then (if is_neg a = is_neg b then a else NaN)
      else if is_inf a then a
      else if is_inf b then b
      else if val a + val b = 0 then signed_zero (is_neg a \<and> is_neg b)
      else fl (val a + val b))"

definition js_sub :: "jsval \<Rightarrow> jsval \<Rightarrow> jsval" where
  "js_sub a b = js_add a (js_neg b)"

definition js_mul :: "jsval \<Rightarrow> jsval \<Rightarrow> jsval" where
  "js_mul a b =
     (if is_nan a \<or> is_nan b then NaN
      else if (is_inf a \<and> is_zero b) \<or> (is_zero a \<and> is_inf b) then NaN
      else if is_inf a \<or> is_inf b then signed_inf (is_neg a \<noteq> is_neg b)
      else if val a * val b = 0 then signed_zero (is_neg a \<noteq> is_neg b)
      else fl (val a * val b))"

definition js_div :: "jsval \<Rightarrow> jsval \<Rightarrow> jsval" where
  "js_div a b =
     (if is_nan a \<or> is_nan b then NaN
      else if (is_inf a \<and> is_inf b) \<or> (is_zero a \<and> is_zero b) then NaN
      else if is_inf a \<or> is_zero b then signed_inf (is_neg a \<noteq> is_neg b)
      else if is_inf b \<or> is_zero a then signed_zero (is_neg a \<noteq> is_neg b)
      else fl (val a / val b))"

definition Math_abs :: "jsval \<Rightarrow> jsval" where
  "Math_abs a = (if is_nan a then NaN else if is_inf a then Infinity else Num \<bar>val a\<bar>)"

definition Math_sign :: "jsval \<Rightarrow> jsval" where
  "Math_sign a =
     (if is_nan a then NaN
      else if is_zero a then a
      else if is_neg a then Num (- 1)
      else Num 1)"

text \<open>
  The order \<open>Math.min\<close> and \<open>Math.max\<close> compare by: negative infinity, the finite
  numbers with negative zero below positive zero, positive infinity.
\<close>

definition below :: "jsval \<Rightarrow> jsval \<Rightarrow> bool" where
  "below a b \<longleftrightarrow>
     (if a = NegInfinity \<or> b = Infinity then True
      else if a = Infinity \<or> b = NegInfinity then False
      else val a < val b \<or> (val a = val b \<and> (is_neg a \<or> \<not> is_neg b)))"

definition Math_min :: "jsval \<Rightarrow> jsval \<Rightarrow> jsval" where
  "Math_min a b = (if is_nan a \<or> is_nan b then NaN else if below a b then a else b)"

definition Math_max :: "jsval \<Rightarrow> jsval \<Rightarrow> jsval" where
  "Math_max a b = (if is_nan a \<or> is_nan b then NaN else if below a b then b else a)"

text \<open>
  \<open>Math.cos\<close>, \<open>Math.sin\<close> and \<open>Math.atan2\<close>. The language fixes their results at
  zeros, infinities and \<open>NaN\<close>, and leaves the rest to the host, which returns some
  double close to the exact value: what the host computes there is a parameter, and its
  result is a double. The constants \<open>atan2\<close> returns on the axes are taken as the doubles
  nearest to them.
\<close>

record math =
  cos_impl :: "real \<Rightarrow> real"
  sin_impl :: "real \<Rightarrow> real"
  atan2_impl :: "real \<Rightarrow> real \<Rightarrow> real"

definition Math_PI :: jsval where
  "Math_PI = fl pi"

definition Math_cos :: "math \<Rightarrow> jsval \<Rightarrow> jsval" where
  "Math_cos M a =
     (if is_nan a \<or> is_inf a then NaN
      else if is_zero a then Num 1
      else fl (cos_impl M (val a)))"

definition Math_sin :: "math \<Rightarrow> jsval \<Rightarrow> jsval" where
  "Math_sin M a =
     (if is_nan a \<or> is_inf a then NaN
      else if is_zero a then a
      else fl (sin_impl M (val a)))"

definition with_sign :: "bool \<Rightarrow> jsval \<Rightarrow> jsval" where
  "with_sign negative a = (if negative then js_neg a else a)"

definition Math_atan2 :: "math \<Rightarrow> jsval \<Rightarrow> jsval \<Rightarrow> jsval" where
  "Math_atan2 M y x =
     (if is_nan y \<or> is_nan x then NaN
      else if is_inf y then
        with_sign (is_neg y)
          (if x = Infinity then fl (pi / 4)
           else if x = NegInfinity then fl (3 * pi / 4)
           else fl (pi / 2))
      else if is_zero y then (if is_neg x then with_sign (is_neg y) (fl pi) else y)
      else if x = Infinity then signed_zero (is_neg y)
      else if x = NegInfinity then with_sign (is_neg y) (fl pi)
      else if is_zero x then with_sign (is_neg y) (fl (pi / 2))
      else fl (atan2_impl M (val y) (val x)))"

text \<open>\<open>points[i]\<close>: \<open>undefined\<close> when \<open>i\<close> is not an index of the array.\<close>

definition rd :: "jsval list \<Rightarrow> int \<Rightarrow> jsval" where
  "rd points i = (if 0 \<le> i \<and> i < int (length points) then points ! nat i else Undefined)"

text \<open>\<open>points.length\<close>, as the integer the source subtracts from.\<close>

definition len :: "jsval list \<Rightarrow> int" where
  "len points = int (length points)"

section \<open>The canvas context\<close>

text \<open>
  \<open>sceneFunc\<close> draws by calling methods of the canvas context. The model records the
  calls in order; stroking the shape closes the sequence.
\<close>

datatype cmd =
    BeginPath
  | MoveTo jsval jsval
  | LineTo jsval jsval
  | QuadraticCurveTo jsval jsval jsval jsval
  | StrokeShape

section \<open>Corner smoothing\<close>

text \<open>
  The body of the \<open>while\<close> loop of \<open>sceneFunc\<close>, one constant of the source per
  definition. \<open>n\<close> is the loop counter at the top of an iteration; the source adds 2 to
  it between the line and the curve, so the curve reads \<open>points[n + 2]\<close> and
  \<open>points[n + 3]\<close> of the counter's old value.
\<close>

definition cornerRadius :: jsval where
  "cornerRadius = Num 40"

definition dx1 :: "jsval list \<Rightarrow> int \<Rightarrow> jsval" where
  "dx1 points n = js_sub (rd points (n + 2)) (rd points (n + 0))"

definition dy1 :: "jsval list \<Rightarrow> int \<Rightarrow> jsval" where
  "dy1 points n = js_sub (rd points (n + 3)) (rd points (n + 1))"

definition br1 :: "jsval list \<Rightarrow> int \<Rightarrow> jsval" where
  "br1 points n =
     Math_min cornerRadius
       (Math_max (Math_abs (js_div (dx1 points n) (Num 2)))
                 (Math_abs (js_div (dy1 points n) (Num 2))))"

definition dx2 :: "jsval list \<Rightarrow> int \<Rightarrow> jsval" where
  "dx2 points n = js_sub (rd points (n + 2 + 2)) (rd points (n + 0 + 2))"

definition dy2 :: "jsval list \<Rightarrow> int \<Rightarrow> jsval" where
  "dy2 points n = js_sub (rd points (n + 3 + 2)) (rd points (n + 1 + 2))"

definition br2 :: "jsval list \<Rightarrow> int \<Rightarrow> jsval" where
  "br2 points n =
     Math_min cornerRadius
       (Math_max (Math_abs (js_div (dx2 points n) (Num 2)))
                 (Math_abs (js_div (dy2 points n) (Num 2))))"

definition br :: "jsval list \<Rightarrow> int \<Rightarrow> jsval" where
  "br points n = Math_min (br1 points n) (br2 points n)"

definition x1 :: "jsval list \<Rightarrow> int \<Rightarrow> jsval" where
  "x1 points n =
     js_add (rd points (n + 0))
       (js_mul (js_sub (Math_abs (dx1 points n)) (br points n)) (Math_sign (dx1 points n)))"

definition y1 :: "jsval list \<Rightarrow> int \<Rightarrow> jsval" where
  "y1 points n =
     js_add (rd points (n + 1))
       (js_mul (js_sub (Math_abs (dy1 points n)) (br points n)) (Math_sign (dy1 points n)))"

definition x2 :: "jsval list \<Rightarrow> int \<Rightarrow> jsval" where
  "x2 points n =
     js_add (rd points (n + 2 + 0)) (js_mul (br points n) (Math_sign (dx2 points n)))"

definition y2 :: "jsval list \<Rightarrow> int \<Rightarrow> jsval" where
  "y2 points n =
     js_add (rd points (n + 2 + 1)) (js_mul (br points n) (Math_sign (dy2 points n)))"

text \<open>
  The loop \<open>while (n < points.length - 4)\<close>: each iteration draws the line to the
  pull-back point and the curve over the joint, and goes on two coordinates further.
\<close>

function corner_loop :: "jsval list \<Rightarrow> int \<Rightarrow> cmd list" where
  "corner_loop points n =
     (if n < len points - 4
      then LineTo (x1 points n) (y1 points n)
         # QuadraticCurveTo (rd points (n + 2 + 0)) (rd points (n + 2 + 1))
             (x2 points n) (y2 points n)
         # corner_loop points (n + 2)
      else [])"
  by pat_completeness auto
termination
  by (relation "measure (\<lambda>(points, n). nat (len points - 4 - n))") auto

declare corner_loop.simps [simp del]

text \<open>
  The path both variants draw after \<open>moveTo\<close>: the straight line of a list of exactly
  four coordinates, otherwise the smoothed corners and the line to the last two
  coordinates.
\<close>

definition path_body :: "jsval list \<Rightarrow> cmd list" where
  "path_body points =
     (if len points = 4
      then [LineTo (rd points 2) (rd points 3)]
      else corner_loop points 0
         @ [LineTo (rd points (len points - 2)) (rd points (len points - 1))])"

text \<open>
  The arrowhead of the single-shape variant: the heading from the last two points, and a
  stroke on each side of it.
\<close>

definition arrowLen :: jsval where
  "arrowLen = Num 10"

definition angle :: "math \<Rightarrow> jsval list \<Rightarrow> jsval" where
  "angle M points =
     Math_atan2 M (js_sub (rd points (len points - 1)) (rd points (len points - 3)))
                  (js_sub (rd points (len points - 2)) (rd points (len points - 4)))"

definition arrowhead :: "math \<Rightarrow> jsval list \<Rightarrow> cmd list" where
  "arrowhead M points =
     [LineTo
        (js_sub (rd points (len points - 2))
           (js_mul arrowLen (Math_cos M (js_sub (angle M points) (js_div Math_PI (Num 6))))))
        (js_sub (rd points (len points - 1))
           (js_mul arrowLen (Math_sin M (js_sub (angle M points) (js_div Math_PI (Num 6)))))),
      MoveTo (rd points (len points - 2)) (rd points (len points - 1)),
      LineTo
        (js_sub (rd points (len points - 2))
           (js_mul arrowLen (Math_cos M (js_add (angle M points) (js_div Math_PI (Num 6))))))
        (js_sub (rd points (len points - 1))
           (js_mul arrowLen (Math_sin M (js_add (angle M points) (js_div Math_PI (Num 6))))))]"

text \<open>
  What \<open>sceneFunc\<close> of the path in the group variant (GenericArrow.tsx) sends to the
  context when the array holds \<open>points\<close>: the path alone; the arrowhead there is the
  host's own arrow shape.
\<close>

definition sceneFunc_path :: "jsval list \<Rightarrow> cmd list" where
  "sceneFunc_path points =
     [BeginPath, MoveTo (rd points 0) (rd points 1)] @ path_body points @ [StrokeShape]"

text \<open>The same for \<open>sceneFunc\<close> of the single-shape variant: the path, then the arrowhead.\<close>

definition sceneFunc_arrow :: "math \<Rightarrow> jsval list \<Rightarrow> cmd list" where
  "sceneFunc_arrow M points =
     [BeginPath, MoveTo (rd points 0) (rd points 1)] @ path_body points
       @ arrowhead M points @ [StrokeShape]"

section \<open>The arrow and its steps\<close>

text \<open>
  \<open>Visible\<close> is declared outside the two source files; the arrow reads the \<open>x\<close> and
  \<open>y\<close> of its endpoints and nothing else of them. Arrays live in the store, and the
  arrow's \<open>points\<close> field holds the address of one.
\<close>

type_synonym addr = nat

record visible =
  vis_x :: jsval
  vis_y :: jsval

record arrow =
  arrow_x :: jsval
  arrow_y :: jsval
  arrow_height :: jsval
  arrow_width :: jsval
  arrow_points :: addr
  arrow_from :: visible
  arrow_target :: "visible option"

text \<open>The method \<open>to\<close>: it sets the target and the size, and returns the arrow.\<close>

definition arrow_to :: "arrow \<Rightarrow> visible \<Rightarrow> arrow" where
  "arrow_to this to =
     this\<lparr>arrow_target := Some to,
          arrow_width := Math_abs (js_sub (vis_x to) (vis_x (arrow_from this))),
          arrow_height := Math_abs (js_sub (vis_y to) (vis_y (arrow_from this)))\<rparr>"

text \<open>
  A step maps the end of the previous segment to the end of the next one. The base class
  takes one step, to the target, and none when there is no target; a subclass may
  override \<open>calculateSteps\<close>.
\<close>

type_synonym step = "jsval \<Rightarrow> jsval \<Rightarrow> jsval \<times> jsval"

definition calculateSteps :: "arrow \<Rightarrow> step list" where
  "calculateSteps this =
     (case arrow_target this of
        None \<Rightarrow> []
      | Some to \<Rightarrow> [\<lambda>x y. (vis_x to, vis_y to)])"

text \<open>
  The \<open>reduce\<close> of \<open>draw\<close> as a function of values: the accumulator starts as the
  origin's two coordinates, and each step is called on its last two entries and its result
  appended.
\<close>

definition reduce_steps :: "step list \<Rightarrow> jsval list \<Rightarrow> jsval list" where
  "reduce_steps steps init =
     foldl (\<lambda>points step.
              points @ (case step (rd points (len points - 2)) (rd points (len points - 1))
                        of (a, b) \<Rightarrow> [a, b]))
       init steps"

text \<open>\<open>points.splice(0, 2)\<close> then removes the first two entries.\<close>

definition draw_points :: "visible \<Rightarrow> step list \<Rightarrow> jsval list" where
  "draw_points from steps = drop 2 (reduce_steps steps [vis_x from, vis_y from])"

section \<open>The store\<close>

text \<open>
  What the program can change: the arrays, by address, with the next free address; the
  counter \<open>Layout.key\<close>, shared by every shape and declared outside the two source
  files, so that its value is a parameter; and the calls the canvas context has received.
\<close>

record store =
  arrays :: "addr \<Rightarrow> jsval list option"
  next_addr :: addr
  Layout_key :: jsval
  ctx :: "cmd list"

text \<open>The array a variable refers to; a variable of the program always refers to one.\<close>

definition contents :: "store \<Rightarrow> addr \<Rightarrow> jsval list" where
  "contents s p = (case arrays s p of Some xs \<Rightarrow> xs | None \<Rightarrow> [])"

text \<open>An array literal makes a new array.\<close>

definition alloc :: "jsval list \<Rightarrow> store \<Rightarrow> addr \<times> store" where
  "alloc xs s =
     (next_addr s, s\<lparr>arrays := (arrays s)(next_addr s \<mapsto> xs), next_addr := next_addr s + 1\<rparr>)"

text \<open>\<open>splice(0, 2)\<close> changes the array it is called on.\<close>

definition splice_0_2 :: "addr \<Rightarrow> store \<Rightarrow> store" where
  "splice_0_2 p s = s\<lparr>arrays := (arrays s)(p \<mapsto> drop 2 (contents s p))\<rparr>"

text \<open>
  The constructor: the field initialiser \<open>points = []\<close> makes an array, and the other
  fields are set from \<open>from\<close>.
\<close>

definition GenericArrow :: "visible \<Rightarrow> store \<Rightarrow> arrow \<times> store" where
  "GenericArrow from s =
     (case alloc [] s of (p, s') \<Rightarrow>
        (\<lparr>arrow_x = vis_x from, arrow_y = vis_y from, arrow_height = Num 0,
          arrow_width = Num 0, arrow_points = p, arrow_from = from, arrow_target = None\<rparr>,
         s'))"

text \<open>
  The \<open>reduce\<close> of \<open>draw\<close> in the store: the accumulator is an array, and the callback
  returns a new array literal made of the accumulator's entries and the step's result.
  With no step, \<open>reduce\<close> returns the initial array itself.
\<close>

fun reduce_run :: "step list \<Rightarrow> addr \<Rightarrow> store \<Rightarrow> addr \<times> store" where
  "reduce_run [] points s = (points, s)"
| "reduce_run (step # steps) points s =
     (case step (rd (contents s points) (len (contents s points) - 2))
                (rd (contents s points) (len (contents s points) - 1))
      of (a, b) \<Rightarrow>
        (case alloc (contents s points @ [a, b]) s of (points', s') \<Rightarrow>
           reduce_run steps points' s'))"

text \<open>
  What \<open>draw\<close> hands to the host: the key and the array the shape's \<open>sceneFunc\<close> closes
  over.
\<close>

record node =
  node_key :: jsval
  node_points :: addr

text \<open>\<open>ToNumber\<close>, which \<open>++\<close> applies to the old value.\<close>

definition ToNumber :: "jsval \<Rightarrow> jsval" where
  "ToNumber v = (if v = Undefined then NaN else v)"

text \<open>
  \<open>draw\<close>, statement by statement: the initial array, the \<open>reduce\<close> over the steps,
  the \<open>splice\<close> on the array \<open>reduce\<close> returned, and \<open>Layout.key++\<close>, whose value is
  the old key. It returns the node, the arrow after the call and the store after the call.
\<close>

definition draw_with :: "step list \<Rightarrow> arrow \<Rightarrow> store \<Rightarrow> node \<times> arrow \<times> store" where
  "draw_with steps this s =
     (case alloc [vis_x (arrow_from this), vis_y (arrow_from this)] s of (init, s0) \<Rightarrow>
      case reduce_run steps init s0 of (points, s1) \<Rightarrow>
      case splice_0_2 points s1 of s2 \<Rightarrow>
        (\<lparr>node_key = ToNumber (Layout_key s2), node_points = points\<rparr>,
         this,
         s2\<lparr>Layout_key := js_add (ToNumber (Layout_key s2)) (Num 1)\<rparr>))"

definition draw :: "arrow \<Rightarrow> store \<Rightarrow> node \<times> arrow \<times> store" where
  "draw this s = draw_with (calculateSteps this) this s"

text \<open>Drawing a list of arrows one after the other, in the one store.\<close>

fun draw_all :: "arrow list \<Rightarrow> store \<Rightarrow> node list \<times> arrow list \<times> store" where
  "draw_all [] s = ([], [], s)"
| "draw_all (a # as) s =
     (case draw a s of (nd, a', s') \<Rightarrow>
        (case draw_all as s' of (nds, as', s'') \<Rightarrow> (nd # nds, a' # as', s'')))"

text \<open>
  \<open>sceneFunc\<close> in the store, statement by statement. \<open>points\<close> is the address of the
  array the closure holds; a call of a method of the context adds to what the context has
  received; each entry is read from the store as it is when the statement runs.
\<close>

definition ctx_call :: "cmd \<Rightarrow> store \<Rightarrow> store" where
  "ctx_call c s = s\<lparr>ctx := ctx s @ [c]\<rparr>"

function corner_loop_run :: "addr \<Rightarrow> int \<Rightarrow> store \<Rightarrow> store" where
  "corner_loop_run points n s =
     (if n < len (contents s points) - 4
      then
        (case ctx_call (LineTo (x1 (contents s points) n) (y1 (contents s points) n)) s
         of s' \<Rightarrow>
           corner_loop_run points (n + 2)
             (ctx_call
                (QuadraticCurveTo
                   (rd (contents s' points) (n + 2 + 0)) (rd (contents s' points) (n + 2 + 1))
                   (js_add (rd (contents s' points) (n + 2 + 0))
                      (js_mul (br (contents s points) n)
                         (Math_sign (dx2 (contents s points) n))))
                   (js_add (rd (contents s' points) (n + 2 + 1))
                      (js_mul (br (contents s points) n)
                         (Math_sign (dy2 (contents s points) n)))))
                s'))
      else s)"
  by pat_completeness auto
termination
  by (relation "measure (\<lambda>(points, n, s). nat (len (contents s points) - 4 - n))")
    (auto simp: ctx_call_def contents_def)

declare corner_loop_run.simps [simp del]

definition path_body_run :: "addr \<Rightarrow> store \<Rightarrow> store" where
  "path_body_run points s =
     (if len (contents s points) = 4
      then ctx_call (LineTo (rd (contents s points) 2) (rd (contents s points) 3)) s
      else
        (case corner_loop_run points 0 s of s' \<Rightarrow>
           ctx_call
             (LineTo (rd (contents s' points) (len (contents s' points) - 2))
                     (rd (contents s' points) (len (contents s' points) - 1)))
             s'))"

definition move_to_start :: "addr \<Rightarrow> store \<Rightarrow> store" where
  "move_to_start points s =
     (case ctx_call BeginPath s of s' \<Rightarrow>
        ctx_call (MoveTo (rd (contents s' points) 0) (rd (contents s' points) 1)) s')"

definition sceneFunc_path_run :: "addr \<Rightarrow> store \<Rightarrow> store" where
  "sceneFunc_path_run points s =
     ctx_call StrokeShape (path_body_run points (move_to_start points s))"

definition arrowhead_run :: "math \<Rightarrow> addr \<Rightarrow> store \<Rightarrow> store" where
  "arrowhead_run M points s =
     (case angle M (contents s points) of a \<Rightarrow>
      case ctx_call
             (LineTo
                (js_sub (rd (contents s points) (len (contents s points) - 2))
                   (js_mul arrowLen (Math_cos M (js_sub a (js_div Math_PI (Num 6))))))
                (js_sub (rd (contents s points) (len (contents s points) - 1))
                   (js_mul arrowLen (Math_sin M (js_sub a (js_div Math_PI (Num 6)))))))
             s
      of s1 \<Rightarrow>
      case ctx_call
             (MoveTo (rd (contents s1 points) (len (contents s1 points) - 2))
                     (rd (contents s1 points) (len (contents s1 points) - 1)))
             s1
      of s2 \<Rightarrow>
        ctx_call
          (LineTo
             (js_sub (rd (contents s2 points) (len (contents s2 points) - 2))
                (js_mul arrowLen (Math_cos M (js_add a (js_div Math_PI (Num 6))))))
             (js_sub (rd (contents s2 points) (len (contents s2 points) - 1))
                (js_mul arrowLen (Math_sin M (js_add a (js_div Math_PI (Num 6)))))))
          s2)"

definition sceneFunc_arrow_run :: "math \<Rightarrow> addr \<Rightarrow> store \<Rightarrow> store" where
  "sceneFunc_arrow_run M points s =
     ctx_call StrokeShape
       (arrowhead_run M points (path_body_run points (move_to_start points s)))"

section \<open>Hovering\<close>

text \<open>
  The configuration is declared outside the two source files: the two widths, as
  \<open>Number\<close> returns them, are parameters.
\<close>

record config =
  ArrowStrokeWidth :: jsval
  ArrowHoveredStrokeWidth :: jsval

text \<open>The visual attributes of the shape under the pointer; a shape may have more.\<close>

record attrs =
  strokeWidth :: jsval
  hitStrokeWidth :: jsval
  stroke :: string
  fill :: string

text \<open>
  Modelled from the spec: \<open>setHoveredStyle\<close> and \<open>setUnhoveredStyle\<close> of
  EnvVisualizerUtils are not among the source files. The spec says that entering sets the
  stroke width to the value handed over, that leaving restores the value handed over, and
  that no other visual attribute changes.
\<close>

definition setHoveredStyle :: "'a attrs_scheme \<Rightarrow> jsval \<Rightarrow> 'a attrs_scheme" where
  "setHoveredStyle currentTarget w = currentTarget\<lparr>strokeWidth := w\<rparr>"

definition setUnhoveredStyle :: "'a attrs_scheme \<Rightarrow> jsval \<Rightarrow> 'a attrs_scheme" where
  "setUnhoveredStyle currentTarget w = currentTarget\<lparr>strokeWidth := w\<rparr>"

definition onMouseEnter :: "config \<Rightarrow> 'a attrs_scheme \<Rightarrow> 'a attrs_scheme" where
  "onMouseEnter Config currentTarget =
     setHoveredStyle currentTarget (ArrowHoveredStrokeWidth Config)"

definition onMouseLeave :: "config \<Rightarrow> 'a attrs_scheme \<Rightarrow> 'a attrs_scheme" where
  "onMouseLeave Config currentTarget =
     setUnhoveredStyle currentTarget (ArrowStrokeWidth Config)"

datatype pointer_event = Enter | Leave

fun handle :: "config \<Rightarrow> 'a attrs_scheme \<Rightarrow> pointer_event \<Rightarrow> 'a attrs_scheme" where
  "handle Config currentTarget Enter = onMouseEnter Config currentTarget"
| "handle Config currentTarget Leave = onMouseLeave Config currentTarget"

definition handle_all :: "config \<Rightarrow> 'a attrs_scheme \<Rightarrow> pointer_event list \<Rightarrow> 'a attrs_scheme" where
  "handle_all Config currentTarget evs = foldl (handle Config) currentTarget evs"

section \<open>Notions used to state the properties\<close>

text \<open>A finite number: neither \<open>NaN\<close>, \<open>undefined\<close> nor an infinity.\<close>

definition is_fin :: "jsval \<Rightarrow> bool" where
  "is_fin a \<longleftrightarrow> \<not> is_nan a \<and> \<not> is_inf a"

text \<open>
  The planner as the specification words it: each step receives the previous step's
  output, the first one the origin, and the origin itself is not part of the result.
\<close>

fun plan_spec :: "jsval \<Rightarrow> jsval \<Rightarrow> step list \<Rightarrow> jsval list" where
  "plan_spec x y [] = []"
| "plan_spec x y (s # ss) = (case s x y of (a, b) \<Rightarrow> a # b # plan_spec a b ss)"

text \<open>The control points of the quadratic curves of a command sequence, in order.\<close>

fun controls :: "cmd list \<Rightarrow> (jsval \<times> jsval) list" where
  "controls [] = []"
| "controls (QuadraticCurveTo cx cy x y # cs) = (cx, cy) # controls cs"
| "controls (c # cs) = controls cs"

text \<open>
  A flat coordinate list as its points, and the interior joints: every point but the
  first and the last.
\<close>

fun pairs :: "'a list \<Rightarrow> ('a \<times> 'a) list" where
  "pairs (a # b # r) = (a, b) # pairs r"
| "pairs r = []"

definition joints :: "'a list \<Rightarrow> ('a \<times> 'a) list" where
  "joints points = butlast (tl (pairs points))"

text \<open>
  A point \<open>p\<close> strictly between \<open>a\<close> and \<open>b\<close>: on the line through them, past \<open>a\<close> and
  before \<open>b\<close>. The three conditions say that \<open>p - a\<close> is parallel to \<open>b - a\<close> and that
  its projection on \<open>b - a\<close> is positive and shorter than \<open>b - a\<close>.
\<close>

definition strictly_between :: "real \<times> real \<Rightarrow> real \<times> real \<Rightarrow> real \<times> real \<Rightarrow> bool" where
  "strictly_between a b p \<longleftrightarrow>
     (fst p - fst a) * (snd b - snd a) = (snd p - snd a) * (fst b - fst a)
     \<and> 0 < (fst p - fst a) * (fst b - fst a) + (snd p - snd a) * (snd b - snd a)
     \<and> (fst p - fst a) * (fst b - fst a) + (snd p - snd a) * (snd b - snd a)
         < (fst b - fst a) * (fst b - fst a) + (snd b - snd a) * (snd b - snd a)"

text \<open>
  A segment with the differences \<open>dx\<close> and \<open>dy\<close> is straight when it is horizontal,
  vertical or diagonal, and does not have length zero.
\<close>

definition straight :: "real \<Rightarrow> real \<Rightarrow> bool" where
  "straight dx dy \<longleftrightarrow> (dx = 0 \<or> dy = 0 \<or> \<bar>dx\<bar> = \<bar>dy\<bar>) \<and> (dx \<noteq> 0 \<or> dy \<noteq> 0)"

text \<open>
  Half the length of a segment along its dominating axis, and the radius the loop would
  compute at a joint between \<open>(ax, ay)\<close> and \<open>(cx, cy)\<close> if its arithmetic were exact.
\<close>

definition half_reach :: "real \<Rightarrow> real \<Rightarrow> real" where
  "half_reach dx dy = max (\<bar>dx\<bar> / 2) (\<bar>dy\<bar> / 2)"

definition joint_radius :: "real \<Rightarrow> real \<Rightarrow> real \<Rightarrow> real \<Rightarrow> real \<Rightarrow> real \<Rightarrow> real" where
  "joint_radius ax ay jx jy cx cy =
     min (min 40 (half_reach (jx - ax) (jy - ay))) (min 40 (half_reach (cx - jx) (cy - jy)))"

text \<open>
  No step of the loop's arithmetic at the joint rounds: the exact value of each
  difference, half, and sum the loop computes there is a double.
\<close>

definition unrounded :: "real \<Rightarrow> real \<Rightarrow> real \<Rightarrow> real \<Rightarrow> real \<Rightarrow> real \<Rightarrow> bool" where
  "unrounded ax ay jx jy cx cy \<longleftrightarrow>
     double (jx - ax) \<and> double (jy - ay) \<and> double (cx - jx) \<and> double (cy - jy)
     \<and> double ((jx - ax) / 2) \<and> double ((jy - ay) / 2)
     \<and> double ((cx - jx) / 2) \<and> double ((cy - jy) / 2)
     \<and> double (\<bar>jx - ax\<bar> - joint_radius ax ay jx jy cx cy)
     \<and> double (\<bar>jy - ay\<bar> - joint_radius ax ay jx jy cx cy)
     \<and> double (ax + (\<bar>jx - ax\<bar> - joint_radius ax ay jx jy cx cy) * sgn (jx - ax))
     \<and> double (ay + (\<bar>jy - ay\<bar> - joint_radius ax ay jx jy cx cy) * sgn (jy - ay))
     \<and> double (jx + joint_radius ax ay jx jy cx cy * sgn (cx - jx))
     \<and> double (jy + joint_radius ax ay jx jy cx cy * sgn (cy - jy))"

text \<open>The integers and the halves of integers.\<close>

definition halves :: "real \<Rightarrow> bool" where
  "halves x \<longleftrightarrow> (\<exists>k::int. x = of_int k / 2)"

section \<open>Doubles\<close>

text \<open>
  Rounding leaves a double as it is, so the operators are exact wherever the exact
  result is a double; and \<open>2 ^ 53 + 1\<close>, which is not one, rounds to \<open>2 ^ 53\<close>.
\<close>

lemma round_even_of_int: "round_even (of_int n) = n"
  by (simp add: round_even_def)

lemma two_powr_int: "0 \<le> e \<Longrightarrow> 2 powr of_int e = (2::real) ^ nat e"
  by (metis powr_realpow of_nat_nat zero_less_numeral of_int_of_nat_eq)

lemma ulp_le:
  assumes "x \<noteq> 0" and "\<bar>x\<bar> < 2 powr of_int (53 + e)" and "- 1074 \<le> e"
  shows "max (\<lfloor>log 2 \<bar>x\<bar>\<rfloor> - 52) (- 1074) \<le> e"
proof -
  have "log 2 \<bar>x\<bar> < of_int (53 + e)"
    using assms(1,2) by (simp add: log_less_iff)
  then have "\<lfloor>log 2 \<bar>x\<bar>\<rfloor> < 53 + e" by (simp add: floor_less_iff)
  with assms(3) show ?thesis by simp
qed

lemma nearest_exact:
  assumes "x = of_int m * 2 powr of_int e" and "\<bar>m\<bar> < 2 ^ 53" and "- 1074 \<le> e" and "x \<noteq> 0"
  shows "nearest x = x"
proof -
  define E where "E = max (\<lfloor>log 2 \<bar>x\<bar>\<rfloor> - 52) (- 1074)"
  have "\<bar>x\<bar> = \<bar>of_int m\<bar> * 2 powr of_int e"
    unfolding assms(1) by (simp add: abs_mult)
  also have "\<dots> < 2 ^ 53 * 2 powr of_int e"
  proof -
    have "\<bar>real_of_int m\<bar> < 2 ^ 53"
      using assms(2) by (metis of_int_abs of_int_less_numeral_power_cancel_iff)
    then show ?thesis by simp
  qed
  also have "\<dots> = 2 powr of_int (53 + e)"
    by (simp add: powr_add two_powr_int)
  finally have "\<bar>x\<bar> < 2 powr of_int (53 + e)" .
  then have le: "E \<le> e"
    unfolding E_def using assms(3,4) by (intro ulp_le) simp_all
  have u: "ulp x = 2 powr of_int E" by (simp add: ulp_def E_def)
  have "2 powr of_int e / 2 powr of_int E = (2::real) powr of_int (e - E)"
    by (simp add: powr_diff)
  also have "\<dots> = 2 ^ nat (e - E)"
    using le by (intro two_powr_int) simp
  finally have r: "2 powr of_int e / 2 powr of_int E = (2::real) ^ nat (e - E)" .
  have "x / ulp x = of_int m * (2 powr of_int e / 2 powr of_int E)"
    unfolding u by (subst assms(1)) simp
  then have q: "x / ulp x = of_int (m * 2 ^ nat (e - E))"
    unfolding r by simp
  have "nearest x = of_int (m * 2 ^ nat (e - E)) * ulp x"
    unfolding nearest_def q round_even_of_int ..
  also have "\<dots> = x / ulp x * ulp x" by (simp only: q)
  also have "\<dots> = x" by (simp add: u)
  finally show ?thesis .
qed

lemma double_bound:
  assumes "double x"
  shows "\<bar>x\<bar> < 2 ^ 1024"
proof -
  obtain m e :: int where x: "x = of_int m * 2 powr of_int e" and m: "\<bar>m\<bar> < 2 ^ 53"
    and e: "e \<le> 971"
    using assms unfolding double_def by blast
  have m': "\<bar>real_of_int m\<bar> < 2 ^ 53"
    using m by (metis of_int_abs of_int_less_numeral_power_cancel_iff)
  have "(2::real) powr of_int e \<le> 2 powr of_int 971"
    using e by (intro powr_mono) simp_all
  also have "\<dots> = 2 ^ 971" using two_powr_int [of 971] by simp
  finally have p: "(2::real) powr of_int e \<le> 2 ^ 971" .
  have "\<bar>x\<bar> = \<bar>real_of_int m\<bar> * 2 powr of_int e" by (simp add: x abs_mult)
  also have "\<dots> < 2 ^ 53 * 2 ^ 971"
    using m' p by (intro mult_less_le_imp_less) simp_all
  also have "\<dots> = (2::real) ^ 1024" by (simp add: power_add [symmetric])
  finally show ?thesis .
qed

lemma fl_exact:
  assumes "double x" and "x \<noteq> 0"
  shows "fl x = Num x"
proof -
  obtain m e :: int where "x = of_int m * 2 powr of_int e" "\<bar>m\<bar> < 2 ^ 53" "- 1074 \<le> e"
    using assms(1) unfolding double_def by blast
  then have "nearest x = x" using assms(2) by (rule nearest_exact)
  moreover have "\<bar>x\<bar> < 2 ^ 1024" by (rule double_bound [OF assms(1)])
  ultimately show ?thesis using assms(2) by (simp add: fl_def)
qed

lemma double_of_int: "\<bar>k\<bar> < 2 ^ 53 \<Longrightarrow> double (of_int k)"
  unfolding double_def by (rule exI [of _ k], rule exI [of _ 0]) simp

lemma double_half: "\<bar>k\<bar> < 2 ^ 53 \<Longrightarrow> double (of_int k / 2)"
  unfolding double_def
  by (rule exI [of _ k], rule exI [of _ "- 1"]) (simp add: powr_minus field_simps)

lemma double_numeral: "(numeral w :: int) < 2 ^ 53 \<Longrightarrow> double (numeral w)"
  using double_of_int [of "numeral w"] by simp

lemma double_uminus: "double x \<Longrightarrow> double (- x)"
  unfolding double_def
proof (elim exE conjE)
  fix m e :: int
  assume "x = of_int m * 2 powr of_int e" "\<bar>m\<bar> < 2 ^ 53" "- 1074 \<le> e" "e \<le> 971"
  then show "\<exists>m e :: int. - x = of_int m * 2 powr of_int e \<and> \<bar>m\<bar> < 2 ^ 53
      \<and> - 1074 \<le> e \<and> e \<le> 971"
    by (intro exI [of _ "- m"] exI [of _ e]) simp
qed

lemma double_0: "double 0"
  using double_of_int [of 0] by simp

lemma double_1: "double 1"
  using double_of_int [of 1] by simp

lemma double_abs: "double x \<Longrightarrow> double \<bar>x\<bar>"
  by (simp add: abs_if double_uminus)

lemma fl_numeral: "(numeral w :: int) < 2 ^ 53 \<Longrightarrow> fl (numeral w) = Num (numeral w)"
  by (rule fl_exact) (simp_all add: double_numeral)

lemma fl_neg_numeral:
  "(numeral w :: int) < 2 ^ 53 \<Longrightarrow> fl (- numeral w) = Num (- numeral w)"
  by (rule fl_exact) (simp_all add: double_numeral double_uminus)

lemma fl_1: "fl 1 = Num 1"
  by (rule fl_exact) (simp_all add: double_1)

text \<open>A tie goes to the even neighbour.\<close>

lemma nearest_tie: "nearest (2 ^ 53 + 1) = 2 ^ 53"
proof -
  let ?x = "2 ^ 53 + 1 :: real"
  have "2 powr of_int 53 \<le> \<bar>?x\<bar> \<and> \<bar>?x\<bar> < 2 powr (of_int 53 + 1)" by simp
  then have "\<lfloor>log 2 \<bar>?x\<bar>\<rfloor> = 53"
    by (subst floor_log_eq_powr_iff) simp_all
  then have u: "ulp ?x = 2" by (simp add: ulp_def)
  have q: "?x / 2 = of_int (2 ^ 52) + 1 / 2" by simp
  have f: "\<lfloor>?x / 2\<rfloor> = 2 ^ 52" by (rule floor_unique) simp_all
  have r: "round_even (?x / 2) = 2 ^ 52"
    unfolding round_even_def f by simp
  show ?thesis unfolding nearest_def u r by simp
qed

lemma fl_tie: "fl (2 ^ 53 + 1) = Num (2 ^ 53)"
  unfolding fl_def nearest_tie by simp

lemma double_of_int_le:
  assumes "\<bar>k\<bar> \<le> 2 ^ 53"
  shows "double (of_int k)"
proof (cases "\<bar>k\<bar> < 2 ^ 53")
  case True
  then show ?thesis by (rule double_of_int)
next
  case False
  with assms have "\<bar>k\<bar> = 2 ^ 53" by simp
  then have "k = 2 ^ 53 \<or> k = - (2 ^ 53)" by (simp add: abs_if split: if_splits)
  then have "real_of_int k = of_int (k div 2) * 2 powr of_int 1 \<and> \<bar>k div 2\<bar> < 2 ^ 53"
    by auto
  then show ?thesis unfolding double_def
    by (intro exI [of _ "k div 2"] exI [of _ 1]) simp
qed

lemma is_fin_simps [simp]:
  "is_fin (Num a)" "is_fin NegZero" "\<not> is_fin Infinity" "\<not> is_fin NegInfinity"
  "\<not> is_fin NaN" "\<not> is_fin Undefined"
  by (simp_all add: is_fin_def)

lemma is_fin_cases: "is_fin a \<Longrightarrow> a = Num (val a) \<or> a = NegZero"
  by (cases a) simp_all

lemma signed_zero_fin [simp]:
  "is_fin (signed_zero b)" "val (signed_zero b) = 0"
  "\<not> is_nan (signed_zero b)" "\<not> is_inf (signed_zero b)"
  by (simp_all add: signed_zero_def)

lemma neg_exact: "is_fin a \<Longrightarrow> is_fin (js_neg a) \<and> val (js_neg a) = - val a"
  by (cases a) simp_all

lemma fl_val:
  assumes "double x"
  shows "is_fin (fl x) \<and> val (fl x) = x"
proof (cases "x = 0")
  case True
  then show ?thesis by (simp add: fl_def)
next
  case False
  with assms show ?thesis by (simp add: fl_exact)
qed

lemma add_exact:
  assumes "is_fin a" "is_fin b" "double (val a + val b)"
  shows "is_fin (js_add a b) \<and> val (js_add a b) = val a + val b"
  using assms fl_val [OF assms(3)] by (simp add: js_add_def is_fin_def)

lemma sub_exact:
  assumes "is_fin a" "is_fin b" "double (val a - val b)"
  shows "is_fin (js_sub a b) \<and> val (js_sub a b) = val a - val b"
  unfolding js_sub_def
  using add_exact [of a "js_neg b"] neg_exact [OF assms(2)] assms by simp

lemma mul_exact:
  assumes "is_fin a" "is_fin b" "double (val a * val b)"
  shows "is_fin (js_mul a b) \<and> val (js_mul a b) = val a * val b"
  using assms fl_val [OF assms(3)] by (auto simp: js_mul_def is_fin_def)

lemma half_exact:
  assumes "is_fin a" "double (val a / 2)"
  shows "is_fin (js_div a (Num 2)) \<and> val (js_div a (Num 2)) = val a / 2"
proof (cases "is_zero a")
  case True
  then have "val a = 0" by (cases a) simp_all
  with True assms(1) show ?thesis by (simp add: js_div_def is_fin_def)
next
  case False
  with assms(1) show ?thesis
    using fl_val [OF assms(2)] by (simp add: js_div_def is_fin_def)
qed

lemma abs_exact: "is_fin a \<Longrightarrow> Math_abs a = Num \<bar>val a\<bar>"
  by (simp add: Math_abs_def is_fin_def)

lemma sign_exact: "is_fin a \<Longrightarrow> is_fin (Math_sign a) \<and> val (Math_sign a) = sgn (val a)"
  by (cases a) (simp_all add: Math_sign_def sgn_real_def)

lemma min_exact:
  assumes "is_fin a" "is_fin b"
  shows "is_fin (Math_min a b) \<and> val (Math_min a b) = min (val a) (val b)"
  using assms is_fin_cases [OF assms(1)] is_fin_cases [OF assms(2)]
  by (auto simp: Math_min_def below_def is_fin_def min_def)

lemma max_exact:
  assumes "is_fin a" "is_fin b"
  shows "is_fin (Math_max a b) \<and> val (Math_max a b) = max (val a) (val b)"
  using assms is_fin_cases [OF assms(1)] is_fin_cases [OF assms(2)]
  by (auto simp: Math_max_def below_def is_fin_def max_def)

section \<open>The radius of a joint\<close>

lemma rd_mid:
  "rd (pre @ [v0, v1, v2, v3, v4, v5] @ post) (int (length pre) + 0) = v0"
  "rd (pre @ [v0, v1, v2, v3, v4, v5] @ post) (int (length pre) + 1) = v1"
  "rd (pre @ [v0, v1, v2, v3, v4, v5] @ post) (int (length pre) + 2) = v2"
  "rd (pre @ [v0, v1, v2, v3, v4, v5] @ post) (int (length pre) + 3) = v3"
  "rd (pre @ [v0, v1, v2, v3, v4, v5] @ post) (int (length pre) + 4) = v4"
  "rd (pre @ [v0, v1, v2, v3, v4, v5] @ post) (int (length pre) + 5) = v5"
proof -
  have n: "nat (int (length pre) + 1) = length pre + 1"
    "nat (int (length pre) + 2) = length pre + 2"
    "nat (int (length pre) + 3) = length pre + 3"
    "nat (int (length pre) + 4) = length pre + 4"
    "nat (int (length pre) + 5) = length pre + 5"
    by simp_all
  show "rd (pre @ [v0, v1, v2, v3, v4, v5] @ post) (int (length pre) + 0) = v0"
    by (simp add: rd_def nth_append)
  show "rd (pre @ [v0, v1, v2, v3, v4, v5] @ post) (int (length pre) + 1) = v1"
    unfolding rd_def n by (simp add: nth_append)
  show "rd (pre @ [v0, v1, v2, v3, v4, v5] @ post) (int (length pre) + 2) = v2"
    unfolding rd_def n by (simp add: nth_append)
  show "rd (pre @ [v0, v1, v2, v3, v4, v5] @ post) (int (length pre) + 3) = v3"
    unfolding rd_def n by (simp add: nth_append)
  show "rd (pre @ [v0, v1, v2, v3, v4, v5] @ post) (int (length pre) + 4) = v4"
    unfolding rd_def n by (simp add: nth_append)
  show "rd (pre @ [v0, v1, v2, v3, v4, v5] @ post) (int (length pre) + 5) = v5"
    unfolding rd_def n by (simp add: nth_append)
qed

text \<open>
  \<open>strictly_between\<close> is the usual notion: the point is \<open>a + t (b - a)\<close> for some
  \<open>t\<close> strictly between 0 and 1, and the segment has two different ends.
\<close>

lemma strictly_between_param:
  "strictly_between a b p \<longleftrightarrow>
     a \<noteq> b \<and> (\<exists>t. 0 < t \<and> t < 1
        \<and> p = (fst a + t * (fst b - fst a), snd a + t * (snd b - snd a)))"
proof -
  define ux uy vx vy where "ux = fst b - fst a" and "uy = snd b - snd a"
    and "vx = fst p - fst a" and "vy = snd p - snd a"
  define q where "q = ux * ux + uy * uy"
  have sb: "strictly_between a b p \<longleftrightarrow>
      vx * uy = vy * ux \<and> 0 < vx * ux + vy * uy \<and> vx * ux + vy * uy < q"
    by (simp add: strictly_between_def ux_def uy_def vx_def vy_def q_def)
  have ab: "a \<noteq> b \<longleftrightarrow> 0 < q"
  proof -
    have "a = b \<longleftrightarrow> ux = 0 \<and> uy = 0"
      by (auto simp: ux_def uy_def prod_eq_iff)
    moreover have "0 < q \<longleftrightarrow> \<not> (ux = 0 \<and> uy = 0)"
      unfolding q_def by (metis add_pos_nonneg add_nonneg_pos zero_le_square
          not_real_square_gt_zero mult_zero_left add.right_neutral less_irrefl)
    ultimately show ?thesis by simp
  qed
  have pt: "p = (fst a + t * (fst b - fst a), snd a + t * (snd b - snd a))
      \<longleftrightarrow> vx = t * ux \<and> vy = t * uy" for t
    by (auto simp: ux_def uy_def vx_def vy_def prod_eq_iff)
  show ?thesis
  proof
    assume "strictly_between a b p"
    then have c: "vx * uy = vy * ux" and d0: "0 < vx * ux + vy * uy"
      and d1: "vx * ux + vy * uy < q" using sb by simp_all
    have q: "0 < q" using d0 d1 by simp
    define t where "t = (vx * ux + vy * uy) / q"
    have t: "0 < t" "t < 1" using d0 d1 q by (simp_all add: t_def)
    have "vx * q = (vx * ux + vy * uy) * ux"
    proof -
      have "vx * q = vx * ux * ux + (vx * uy) * uy" by (simp add: q_def algebra_simps)
      also have "\<dots> = vx * ux * ux + (vy * ux) * uy" by (simp only: c)
      finally show ?thesis by (simp add: algebra_simps)
    qed
    then have x: "vx = t * ux" using q by (simp add: t_def field_simps)
    have "vy * q = (vx * ux + vy * uy) * uy"
    proof -
      have "vy * q = (vy * ux) * ux + vy * uy * uy" by (simp add: q_def algebra_simps)
      also have "\<dots> = (vx * uy) * ux + vy * uy * uy" by (simp only: c)
      finally show ?thesis by (simp add: algebra_simps)
    qed
    then have y: "vy = t * uy" using q by (simp add: t_def field_simps)
    show "a \<noteq> b \<and> (\<exists>t. 0 < t \<and> t < 1
        \<and> p = (fst a + t * (fst b - fst a), snd a + t * (snd b - snd a)))"
      using q t x y unfolding ab pt by blast
  next
    assume "a \<noteq> b \<and> (\<exists>t. 0 < t \<and> t < 1
        \<and> p = (fst a + t * (fst b - fst a), snd a + t * (snd b - snd a)))"
    then obtain t where q: "0 < q" and t: "0 < t" "t < 1" and v: "vx = t * ux" "vy = t * uy"
      unfolding ab pt by blast
    have d: "vx * ux + vy * uy = t * q" by (simp add: v q_def algebra_simps)
    have "0 < t * q" "t * q < q" using q t by simp_all
    then show "strictly_between a b p"
      unfolding sb d by (simp add: v)
  qed
qed

lemma sb_scaled:
  assumes "0 < k" "k < m" "sx \<noteq> 0 \<or> sy \<noteq> 0"
  shows "strictly_between (ax, ay) (ax + m * sx, ay + m * sy) (ax + k * sx, ay + k * sy)"
proof -
  define s where "s = sx * sx + sy * sy"
  have s: "0 < s" using assms(3) unfolding s_def
    by (metis add_pos_nonneg add_nonneg_pos zero_le_square not_real_square_gt_zero)
  have m: "0 < m" using assms by simp
  have d: "k * sx * (m * sx) + k * sy * (m * sy) = k * m * s"
    and u: "m * sx * (m * sx) + m * sy * (m * sy) = m * m * s"
    by (simp_all add: s_def algebra_simps)
  have "0 < k * m * s" using assms(1) m s by simp
  moreover have "k * m * s < m * m * s" using assms(2) m s by simp
  ultimately show ?thesis
    by (simp add: strictly_between_def d u)
qed

lemma half_reach_bounds:
  "0 \<le> half_reach dx dy" "half_reach dx dy = max \<bar>dx\<bar> \<bar>dy\<bar> / 2"
  "half_reach dx dy \<le> sqrt (dx\<^sup>2 + dy\<^sup>2) / 2"
proof -
  show "0 \<le> half_reach dx dy" by (simp add: half_reach_def max_def)
  show e: "half_reach dx dy = max \<bar>dx\<bar> \<bar>dy\<bar> / 2" by (simp add: half_reach_def max_def)
  have "\<bar>dx\<bar> \<le> sqrt (dx\<^sup>2 + dy\<^sup>2)" "\<bar>dy\<bar> \<le> sqrt (dx\<^sup>2 + dy\<^sup>2)"
    by (simp_all add: real_le_rsqrt real_le_lsqrt)
  then show "half_reach dx dy \<le> sqrt (dx\<^sup>2 + dy\<^sup>2) / 2"
    unfolding e by simp
qed

lemma straight_reach:
  assumes "straight dx dy"
  shows "0 < half_reach dx dy"
    and "dx = 2 * half_reach dx dy * sgn dx" and "dy = 2 * half_reach dx dy * sgn dy"
    and "sgn dx \<noteq> 0 \<or> sgn dy \<noteq> 0"
  using assms
  by (auto simp: straight_def half_reach_def max_def sgn_real_def abs_if split: if_splits)

lemma straight_offset:
  assumes "straight dx dy"
  shows "(\<bar>dx\<bar> - b) * sgn dx = (2 * half_reach dx dy - b) * sgn dx"
    and "(\<bar>dy\<bar> - b) * sgn dy = (2 * half_reach dx dy - b) * sgn dy"
  using assms
  by (auto simp: straight_def half_reach_def max_def sgn_real_def abs_if split: if_splits)

lemma sb_pull_back:
  assumes "straight dx dy" and "0 < b" and "b \<le> half_reach dx dy"
  shows "strictly_between (ax, ay) (ax + dx, ay + dy)
           (ax + (\<bar>dx\<bar> - b) * sgn dx, ay + (\<bar>dy\<bar> - b) * sgn dy)"
proof -
  let ?h = "half_reach dx dy"
  have h: "0 < ?h" by (rule straight_reach(1) [OF assms(1)])
  have "strictly_between (ax, ay) (ax + 2 * ?h * sgn dx, ay + 2 * ?h * sgn dy)
           (ax + (2 * ?h - b) * sgn dx, ay + (2 * ?h - b) * sgn dy)"
    using assms(2,3) h straight_reach(4) [OF assms(1)] by (intro sb_scaled) simp_all
  then show ?thesis
    unfolding straight_offset [OF assms(1)]
      straight_reach(2) [OF assms(1), symmetric] straight_reach(3) [OF assms(1), symmetric] .
qed

lemma sb_push_forward:
  assumes "straight dx dy" and "0 < b" and "b \<le> half_reach dx dy"
  shows "strictly_between (jx, jy) (jx + dx, jy + dy) (jx + b * sgn dx, jy + b * sgn dy)"
proof -
  let ?h = "half_reach dx dy"
  have h: "0 < ?h" by (rule straight_reach(1) [OF assms(1)])
  have "strictly_between (jx, jy) (jx + 2 * ?h * sgn dx, jy + 2 * ?h * sgn dy)
           (jx + b * sgn dx, jy + b * sgn dy)"
    using assms(2,3) h straight_reach(4) [OF assms(1)] by (intro sb_scaled) simp_all
  then show ?thesis
    unfolding straight_reach(2) [OF assms(1), symmetric] straight_reach(3) [OF assms(1), symmetric] .
qed

lemma double_min: "double x \<Longrightarrow> double y \<Longrightarrow> double (min x y)"
  by (simp add: min_def)

lemma double_max: "double x \<Longrightarrow> double y \<Longrightarrow> double (max x y)"
  by (simp add: max_def)

lemma double_mult_sgn: "double x \<Longrightarrow> double (x * sgn y)"
  by (simp add: sgn_real_def double_uminus double_0)

lemma double_40: "double 40"
  by (rule double_numeral) simp

lemma unrounded_radius:
  assumes "unrounded ax ay jx jy cx cy"
  shows "double (joint_radius ax ay jx jy cx cy)"
proof -
  have h: "double (half_reach u v)" if "double (u / 2)" "double (v / 2)" for u v
  proof -
    have "double \<bar>u / 2\<bar>" "double \<bar>v / 2\<bar>"
      by (rule double_abs [OF that(1)], rule double_abs [OF that(2)])
    moreover have "\<bar>u / 2\<bar> = \<bar>u\<bar> / 2" "\<bar>v / 2\<bar> = \<bar>v\<bar> / 2" by simp_all
    ultimately show ?thesis unfolding half_reach_def by (simp add: double_max)
  qed
  show ?thesis
    unfolding joint_radius_def
    using assms by (intro double_min double_40 h) (simp_all add: unrounded_def)
qed

lemma joint_values:
  fixes ax ay jx jy cx cy :: real and pre post :: "jsval list"
  assumes u: "unrounded ax ay jx jy cx cy"
  defines "ps \<equiv> pre @ [Num ax, Num ay, Num jx, Num jy, Num cx, Num cy] @ post"
    and "n \<equiv> int (length pre)"
    and "b \<equiv> joint_radius ax ay jx jy cx cy"
  shows "is_fin (br ps n) \<and> val (br ps n) = b"
    and "is_fin (x1 ps n) \<and> val (x1 ps n) = ax + (\<bar>jx - ax\<bar> - b) * sgn (jx - ax)"
    and "is_fin (y1 ps n) \<and> val (y1 ps n) = ay + (\<bar>jy - ay\<bar> - b) * sgn (jy - ay)"
    and "is_fin (x2 ps n) \<and> val (x2 ps n) = jx + b * sgn (cx - jx)"
    and "is_fin (y2 ps n) \<and> val (y2 ps n) = jy + b * sgn (cy - jy)"
proof -
  note r = rd_mid [of pre "Num ax" "Num ay" "Num jx" "Num jy" "Num cx" "Num cy" post]
  have rr: "rd ps (n + 0) = Num ax" "rd ps (n + 1) = Num ay" "rd ps (n + 2) = Num jx"
    "rd ps (n + 3) = Num jy" "rd ps (n + 2 + 0) = Num jx" "rd ps (n + 2 + 1) = Num jy"
    "rd ps (n + 0 + 2) = Num jx" "rd ps (n + 1 + 2) = Num jy"
    "rd ps (n + 2 + 2) = Num cx" "rd ps (n + 3 + 2) = Num cy"
    using r by (simp_all add: ps_def n_def add.assoc)
  have dd: "double (jx - ax)" "double (jy - ay)" "double (cx - jx)" "double (cy - jy)"
    "double ((jx - ax) / 2)" "double ((jy - ay) / 2)"
    "double ((cx - jx) / 2)" "double ((cy - jy) / 2)"
    "double (\<bar>jx - ax\<bar> - b)" "double (\<bar>jy - ay\<bar> - b)"
    "double (ax + (\<bar>jx - ax\<bar> - b) * sgn (jx - ax))"
    "double (ay + (\<bar>jy - ay\<bar> - b) * sgn (jy - ay))"
    "double (jx + b * sgn (cx - jx))" "double (jy + b * sgn (cy - jy))"
    using u unfolding unrounded_def b_def by simp_all
  have db: "double b" unfolding b_def by (rule unrounded_radius [OF u])
  have d: "is_fin (dx1 ps n) \<and> val (dx1 ps n) = jx - ax"
    "is_fin (dy1 ps n) \<and> val (dy1 ps n) = jy - ay"
    "is_fin (dx2 ps n) \<and> val (dx2 ps n) = cx - jx"
    "is_fin (dy2 ps n) \<and> val (dy2 ps n) = cy - jy"
    unfolding dx1_def dy1_def dx2_def dy2_def rr
    using dd(1-4) by (simp_all add: sub_exact)
  have h: "Math_abs (js_div v (Num 2)) = Num (\<bar>w\<bar> / 2)"
    if "is_fin v \<and> val v = w" "double (w / 2)" for v w
  proof -
    have v: "is_fin v" "val v = w" using that(1) by simp_all
    have e: "is_fin (js_div v (Num 2)) \<and> val (js_div v (Num 2)) = val v / 2"
      by (rule half_exact [OF v(1)]) (simp only: v(2) that(2))
    have "Math_abs (js_div v (Num 2)) = Num \<bar>val v / 2\<bar>"
      using abs_exact [OF conjunct1 [OF e]] conjunct2 [OF e] by (simp only:)
    then show ?thesis by (simp add: v(2))
  qed
  have m: "is_fin (Math_min cornerRadius (Math_max (Num p) (Num q)))
      \<and> val (Math_min cornerRadius (Math_max (Num p) (Num q))) = min 40 (max p q)" for p q
    using max_exact [of "Num p" "Num q"]
      min_exact [of cornerRadius "Math_max (Num p) (Num q)"]
    by (simp add: cornerRadius_def)
  have b1: "is_fin (br1 ps n) \<and> val (br1 ps n) = min 40 (half_reach (jx - ax) (jy - ay))"
    unfolding br1_def h [OF d(1) dd(5)] h [OF d(2) dd(6)] half_reach_def by (rule m)
  have b2: "is_fin (br2 ps n) \<and> val (br2 ps n) = min 40 (half_reach (cx - jx) (cy - jy))"
    unfolding br2_def h [OF d(3) dd(7)] h [OF d(4) dd(8)] half_reach_def by (rule m)
  show bb: "is_fin (br ps n) \<and> val (br ps n) = b"
    unfolding br_def b_def joint_radius_def
    using b1 b2 min_exact [of "br1 ps n" "br2 ps n"] by simp
  have off: "is_fin (js_mul (js_sub (Math_abs v) (br ps n)) (Math_sign v))
      \<and> val (js_mul (js_sub (Math_abs v) (br ps n)) (Math_sign v)) = (\<bar>w\<bar> - b) * sgn w"
    if "is_fin v \<and> val v = w" "double (\<bar>w\<bar> - b)" for v w
  proof -
    have s: "is_fin (js_sub (Math_abs v) (br ps n))
        \<and> val (js_sub (Math_abs v) (br ps n)) = \<bar>w\<bar> - b"
      using that bb sub_exact [of "Math_abs v" "br ps n"] by (simp add: abs_exact)
    have g: "is_fin (Math_sign v) \<and> val (Math_sign v) = sgn w"
      using that sign_exact [of v] by simp
    show ?thesis
      using s g that(2) mul_exact [of "js_sub (Math_abs v) (br ps n)" "Math_sign v"]
      by (simp add: double_mult_sgn)
  qed
  have fwd: "is_fin (js_mul (br ps n) (Math_sign v))
      \<and> val (js_mul (br ps n) (Math_sign v)) = b * sgn w"
    if "is_fin v \<and> val v = w" for v w
  proof -
    have g: "is_fin (Math_sign v) \<and> val (Math_sign v) = sgn w"
      using that sign_exact [of v] by simp
    show ?thesis
      using bb g db mul_exact [of "br ps n" "Math_sign v"] by (simp add: double_mult_sgn)
  qed
  show "is_fin (x1 ps n) \<and> val (x1 ps n) = ax + (\<bar>jx - ax\<bar> - b) * sgn (jx - ax)"
    unfolding x1_def rr
    using off [OF d(1) dd(9)] dd(11)
      add_exact [of "Num ax" "js_mul (js_sub (Math_abs (dx1 ps n)) (br ps n)) (Math_sign (dx1 ps n))"]
    by simp
  show "is_fin (y1 ps n) \<and> val (y1 ps n) = ay + (\<bar>jy - ay\<bar> - b) * sgn (jy - ay)"
    unfolding y1_def rr
    using off [OF d(2) dd(10)] dd(12)
      add_exact [of "Num ay" "js_mul (js_sub (Math_abs (dy1 ps n)) (br ps n)) (Math_sign (dy1 ps n))"]
    by simp
  show "is_fin (x2 ps n) \<and> val (x2 ps n) = jx + b * sgn (cx - jx)"
    unfolding x2_def rr
    using fwd [OF d(3)] dd(13)
      add_exact [of "Num jx" "js_mul (br ps n) (Math_sign (dx2 ps n))"]
    by simp
  show "is_fin (y2 ps n) \<and> val (y2 ps n) = jy + b * sgn (cy - jy)"
    unfolding y2_def rr
    using fwd [OF d(4)] dd(14)
      add_exact [of "Num jy" "js_mul (br ps n) (Math_sign (dy2 ps n))"]
    by simp
qed

lemma joint_radius_bounds:
  "0 \<le> joint_radius ax ay jx jy cx cy"
  "joint_radius ax ay jx jy cx cy \<le> half_reach (jx - ax) (jy - ay)"
  "joint_radius ax ay jx jy cx cy \<le> half_reach (cx - jx) (cy - jy)"
  "0 < joint_radius ax ay jx jy cx cy \<longleftrightarrow>
     (jx \<noteq> ax \<or> jy \<noteq> ay) \<and> (cx \<noteq> jx \<or> cy \<noteq> jy)"
proof -
  have p: "0 < half_reach u v \<longleftrightarrow> u \<noteq> 0 \<or> v \<noteq> 0" for u v
    by (auto simp: half_reach_def max_def)
  show "0 \<le> joint_radius ax ay jx jy cx cy"
    unfolding joint_radius_def
    using half_reach_bounds(1) [of "jx - ax" "jy - ay"] half_reach_bounds(1) [of "cx - jx" "cy - jy"]
    by simp
  show "joint_radius ax ay jx jy cx cy \<le> half_reach (jx - ax) (jy - ay)"
    "joint_radius ax ay jx jy cx cy \<le> half_reach (cx - jx) (cy - jy)"
    unfolding joint_radius_def by simp_all
  show "0 < joint_radius ax ay jx jy cx cy \<longleftrightarrow>
     (jx \<noteq> ax \<or> jy \<noteq> ay) \<and> (cx \<noteq> jx \<or> cy \<noteq> jy)"
    unfolding joint_radius_def by (simp add: p)
qed

lemma equal_legs:
  fixes p q b :: real
  assumes "0 < b" and "(p - b) * q = (q - b) * p"
  shows "p = q"
proof -
  have "b * (p - q) = 0" using assms(2) by (simp add: algebra_simps)
  with assms(1) show ?thesis by simp
qed

lemma mult_sgn_self: "sgn x * x = \<bar>x\<bar>" for x :: real
  by (simp add: sgn_real_def abs_if)

lemma pull_back_iff:
  fixes ax ay dx dy b :: real
  assumes "0 \<le> b" and "b \<le> half_reach dx dy"
  shows "strictly_between (ax, ay) (ax + dx, ay + dy)
           (ax + (\<bar>dx\<bar> - b) * sgn dx, ay + (\<bar>dy\<bar> - b) * sgn dy)
         \<longleftrightarrow> straight dx dy \<and> 0 < b"
proof
  assume "straight dx dy \<and> 0 < b"
  then show "strictly_between (ax, ay) (ax + dx, ay + dy)
           (ax + (\<bar>dx\<bar> - b) * sgn dx, ay + (\<bar>dy\<bar> - b) * sgn dy)"
    using sb_pull_back [of dx dy b ax ay] assms(2) by simp
next
  assume sb: "strictly_between (ax, ay) (ax + dx, ay + dy)
           (ax + (\<bar>dx\<bar> - b) * sgn dx, ay + (\<bar>dy\<bar> - b) * sgn dy)"
  let ?vx = "(\<bar>dx\<bar> - b) * sgn dx" and ?vy = "(\<bar>dy\<bar> - b) * sgn dy"
  have cross: "?vx * dy = ?vy * dx"
    and low: "0 < ?vx * dx + ?vy * dy"
    and high: "?vx * dx + ?vy * dy < dx * dx + dy * dy"
    using sb by (simp_all add: strictly_between_def)
  have px: "?vx * dx = (\<bar>dx\<bar> - b) * \<bar>dx\<bar>"
    using mult_sgn_self [of dx] by (simp add: mult.assoc)
  have py: "?vy * dy = (\<bar>dy\<bar> - b) * \<bar>dy\<bar>"
    using mult_sgn_self [of dy] by (simp add: mult.assoc)
  have sq: "dx * dx = \<bar>dx\<bar> * \<bar>dx\<bar>" "dy * dy = \<bar>dy\<bar> * \<bar>dy\<bar>" by simp_all
  have "0 < b * (\<bar>dx\<bar> + \<bar>dy\<bar>)"
    using high unfolding px py sq by (simp add: algebra_simps)
  then have pos: "0 < b" and nz: "dx \<noteq> 0 \<or> dy \<noteq> 0"
    using assms(1) by (auto simp: zero_less_mult_iff)
  have "dx = 0 \<or> dy = 0 \<or> \<bar>dx\<bar> = \<bar>dy\<bar>"
  proof (cases "dx = 0 \<or> dy = 0")
    case True
    then show ?thesis by blast
  next
    case False
    then have s: "sgn dx * sgn dy \<noteq> 0" by (simp add: sgn_real_def)
    have e1: "?vx * dy = (\<bar>dx\<bar> - b) * \<bar>dy\<bar> * (sgn dx * sgn dy)"
      by (simp add: sgn_real_def abs_if)
    have e2: "?vy * dx = (\<bar>dy\<bar> - b) * \<bar>dx\<bar> * (sgn dx * sgn dy)"
      by (simp add: sgn_real_def abs_if)
    have "(\<bar>dx\<bar> - b) * \<bar>dy\<bar> * (sgn dx * sgn dy)
        = (\<bar>dy\<bar> - b) * \<bar>dx\<bar> * (sgn dx * sgn dy)"
      using cross unfolding e1 e2 .
    then have "(\<bar>dx\<bar> - b) * \<bar>dy\<bar> = (\<bar>dy\<bar> - b) * \<bar>dx\<bar>"
      using s by (simp only: mult_cancel_right) simp
    then have "\<bar>dx\<bar> = \<bar>dy\<bar>" by (rule equal_legs [OF pos])
    then show ?thesis by blast
  qed
  with nz pos show "straight dx dy \<and> 0 < b" by (simp add: straight_def)
qed

lemma push_forward_iff:
  fixes jx jy dx dy b :: real
  assumes "0 \<le> b" and "b \<le> half_reach dx dy"
  shows "strictly_between (jx, jy) (jx + dx, jy + dy) (jx + b * sgn dx, jy + b * sgn dy)
         \<longleftrightarrow> straight dx dy \<and> 0 < b"
proof
  assume "straight dx dy \<and> 0 < b"
  then show "strictly_between (jx, jy) (jx + dx, jy + dy) (jx + b * sgn dx, jy + b * sgn dy)"
    using sb_push_forward [of dx dy b jx jy] assms(2) by simp
next
  assume sb: "strictly_between (jx, jy) (jx + dx, jy + dy) (jx + b * sgn dx, jy + b * sgn dy)"
  have cross: "b * sgn dx * dy = b * sgn dy * dx"
    and low: "0 < b * sgn dx * dx + b * sgn dy * dy"
    using sb by (simp_all add: strictly_between_def)
  have "b * sgn dx * dx + b * sgn dy * dy = b * (\<bar>dx\<bar> + \<bar>dy\<bar>)"
    using mult_sgn_self [of dx] mult_sgn_self [of dy] by (simp add: algebra_simps)
  then have "0 < b * (\<bar>dx\<bar> + \<bar>dy\<bar>)" using low by simp
  then have pos: "0 < b" and nz: "dx \<noteq> 0 \<or> dy \<noteq> 0"
    using assms(1) by (auto simp: zero_less_mult_iff)
  have "dx = 0 \<or> dy = 0 \<or> \<bar>dx\<bar> = \<bar>dy\<bar>"
  proof (cases "dx = 0 \<or> dy = 0")
    case True
    then show ?thesis by blast
  next
    case False
    then have s: "sgn dx * sgn dy \<noteq> 0" by (simp add: sgn_real_def)
    have "b * (sgn dx * dy) = b * (sgn dy * dx)" using cross by (simp only: mult.assoc)
    then have c: "sgn dx * dy = sgn dy * dx" using pos by simp
    have e1: "sgn dx * dy = \<bar>dy\<bar> * (sgn dx * sgn dy)"
      by (simp add: sgn_real_def abs_if)
    have e2: "sgn dy * dx = \<bar>dx\<bar> * (sgn dx * sgn dy)"
      by (simp add: sgn_real_def abs_if)
    have "\<bar>dy\<bar> * (sgn dx * sgn dy) = \<bar>dx\<bar> * (sgn dx * sgn dy)"
      using c unfolding e1 e2 .
    then have "\<bar>dx\<bar> = \<bar>dy\<bar>" using s by (simp only: mult_cancel_right) simp
    then show ?thesis by blast
  qed
  with nz pos show "straight dx dy \<and> 0 < b" by (simp add: straight_def)
qed

lemma halves_of_int: "halves (of_int k)"
  unfolding halves_def by (rule exI [of _ "2 * k"]) simp

lemma halves_half: "halves (of_int k / 2)"
  unfolding halves_def by blast

lemma halves_numeral: "halves (numeral w)"
  using halves_of_int [of "numeral w"] by simp

lemma halves_diff: "halves x \<Longrightarrow> halves y \<Longrightarrow> halves (x - y)"
  unfolding halves_def
proof (elim exE)
  fix k l :: int
  assume "x = of_int k / 2" "y = of_int l / 2"
  then have "x - y = of_int (k - l) / 2" by (simp add: field_simps)
  then show "\<exists>m :: int. x - y = of_int m / 2" by blast
qed

lemma halves_add: "halves x \<Longrightarrow> halves y \<Longrightarrow> halves (x + y)"
  unfolding halves_def
proof (elim exE)
  fix k l :: int
  assume "x = of_int k / 2" "y = of_int l / 2"
  then have "x + y = of_int (k + l) / 2" by (simp add: field_simps)
  then show "\<exists>m :: int. x + y = of_int m / 2" by blast
qed

lemma halves_uminus: "halves x \<Longrightarrow> halves (- x)"
  unfolding halves_def
proof (elim exE)
  fix k :: int
  assume "x = of_int k / 2"
  then have "- x = of_int (- k) / 2" by simp
  then show "\<exists>m :: int. - x = of_int m / 2" by blast
qed

lemma halves_0: "halves 0"
  using halves_of_int [of 0] by simp

lemma halves_abs: "halves x \<Longrightarrow> halves \<bar>x\<bar>"
  by (simp add: abs_if halves_uminus)

lemma halves_min: "halves x \<Longrightarrow> halves y \<Longrightarrow> halves (min x y)"
  by (simp add: min_def)

lemma halves_max: "halves x \<Longrightarrow> halves y \<Longrightarrow> halves (max x y)"
  by (simp add: max_def)

lemma halves_mult_sgn: "halves x \<Longrightarrow> halves (x * sgn y)"
  by (simp add: sgn_real_def halves_uminus halves_0)

lemma halves_double:
  assumes "halves x" and "\<bar>x\<bar> < 2 ^ 52"
  shows "double x"
proof -
  obtain k :: int where k: "x = of_int k / 2" using assms(1) unfolding halves_def by blast
  have "\<bar>real_of_int k\<bar> < 2 ^ 53" using assms(2) unfolding k by simp
  then have "\<bar>k\<bar> < 2 ^ 53"
    by (metis of_int_abs of_int_less_numeral_power_cancel_iff)
  then show ?thesis unfolding k by (rule double_half)
qed

lemma mult_sgn_le: "\<bar>u * sgn w\<bar> \<le> \<bar>u\<bar>" for u w :: real
  by (simp add: abs_mult sgn_real_def)

lemma pull_back_magnitude:
  fixes p j b A w :: real
  assumes "\<bar>p\<bar> \<le> A" "\<bar>j\<bar> \<le> A" "0 \<le> b" "b \<le> 40" "40 \<le> A"
  shows "\<bar>\<bar>j - p\<bar> - b\<bar> \<le> 2 * A" and "\<bar>p + (\<bar>j - p\<bar> - b) * sgn w\<bar> \<le> 3 * A"
proof -
  have "\<bar>j - p\<bar> \<le> \<bar>j\<bar> + \<bar>p\<bar>" by (rule abs_triangle_ineq4)
  then have d: "\<bar>j - p\<bar> \<le> 2 * A" using assms(1,2) by linarith
  have "0 \<le> \<bar>j - p\<bar>" by simp
  then have "- 40 \<le> \<bar>j - p\<bar> - b" "\<bar>j - p\<bar> - b \<le> 2 * A"
    using d assms(3,4) by linarith+
  then show u: "\<bar>\<bar>j - p\<bar> - b\<bar> \<le> 2 * A"
    using assms(5) by (intro abs_leI) linarith+
  have "\<bar>p + (\<bar>j - p\<bar> - b) * sgn w\<bar> \<le> \<bar>p\<bar> + \<bar>(\<bar>j - p\<bar> - b) * sgn w\<bar>"
    by (rule abs_triangle_ineq)
  also have "\<dots> \<le> \<bar>p\<bar> + \<bar>\<bar>j - p\<bar> - b\<bar>"
    using mult_sgn_le [of "\<bar>j - p\<bar> - b" w] by linarith
  also have "\<dots> \<le> 3 * A" using u assms(1) by linarith
  finally show "\<bar>p + (\<bar>j - p\<bar> - b) * sgn w\<bar> \<le> 3 * A" .
qed

lemma push_forward_magnitude:
  fixes j b A w :: real
  assumes "\<bar>j\<bar> \<le> A" "0 \<le> b" "b \<le> 40"
  shows "\<bar>j + b * sgn w\<bar> \<le> A + 40"
proof -
  have "\<bar>j + b * sgn w\<bar> \<le> \<bar>j\<bar> + \<bar>b * sgn w\<bar>" by (rule abs_triangle_ineq)
  also have "\<dots> \<le> \<bar>j\<bar> + \<bar>b\<bar>" using mult_sgn_le [of b w] by linarith
  also have "\<dots> \<le> A + 40" using assms by linarith
  finally show ?thesis .
qed

lemma difference_magnitude:
  fixes p j A :: real
  assumes "\<bar>p\<bar> \<le> A" "\<bar>j\<bar> \<le> A"
  shows "\<bar>j - p\<bar> \<le> 2 * A" and "\<bar>(j - p) / 2\<bar> \<le> A"
proof -
  have "\<bar>j - p\<bar> \<le> \<bar>j\<bar> + \<bar>p\<bar>" by (rule abs_triangle_ineq4)
  then show d: "\<bar>j - p\<bar> \<le> 2 * A" using assms by linarith
  have "\<bar>j - p\<bar> / 2 \<le> A" using d by simp
  then show "\<bar>(j - p) / 2\<bar> \<le> A" by simp
qed

text \<open>With integer coordinates of magnitude at most \<open>2 ^ 50\<close> no step rounds.\<close>

lemma integer_coordinates_unrounded:
  fixes a1 a2 j1 j2 c1 c2 :: int
  assumes "\<bar>a1\<bar> \<le> 2 ^ 50" "\<bar>a2\<bar> \<le> 2 ^ 50" "\<bar>j1\<bar> \<le> 2 ^ 50" "\<bar>j2\<bar> \<le> 2 ^ 50"
    "\<bar>c1\<bar> \<le> 2 ^ 50" "\<bar>c2\<bar> \<le> 2 ^ 50"
  shows "unrounded (of_int a1) (of_int a2) (of_int j1) (of_int j2) (of_int c1) (of_int c2)"
proof -
  define ax ay jx jy cx cy :: real where "ax = of_int a1" and "ay = of_int a2"
    and "jx = of_int j1" and "jy = of_int j2" and "cx = of_int c1" and "cy = of_int c2"
  note defs = ax_def ay_def jx_def jy_def cx_def cy_def
  define b where "b = joint_radius ax ay jx jy cx cy"
  have bound: "\<bar>real_of_int k\<bar> \<le> 2 ^ 50" if "\<bar>k\<bar> \<le> 2 ^ 50" for k :: int
    using that by (metis of_int_abs of_int_le_numeral_power_cancel_iff)
  have m: "\<bar>ax\<bar> \<le> 2 ^ 50" "\<bar>ay\<bar> \<le> 2 ^ 50" "\<bar>jx\<bar> \<le> 2 ^ 50" "\<bar>jy\<bar> \<le> 2 ^ 50"
    "\<bar>cx\<bar> \<le> 2 ^ 50" "\<bar>cy\<bar> \<le> 2 ^ 50"
    unfolding defs using assms by (simp_all only: bound)
  have i: "halves ax" "halves ay" "halves jx" "halves jy"
    unfolding defs by (rule halves_of_int)+
  have d: "halves (jx - ax)" "halves (jy - ay)" "halves (cx - jx)" "halves (cy - jy)"
    unfolding defs by (simp_all only: of_int_diff [symmetric] halves_of_int)
  have d2: "halves ((jx - ax) / 2)" "halves ((jy - ay) / 2)"
    "halves ((cx - jx) / 2)" "halves ((cy - jy) / 2)"
    unfolding defs by (simp_all only: of_int_diff [symmetric] halves_half)
  have hr: "halves (half_reach u v)" if "halves (u / 2)" "halves (v / 2)" for u v
  proof -
    have "halves \<bar>u / 2\<bar>" "halves \<bar>v / 2\<bar>"
      by (rule halves_abs [OF that(1)], rule halves_abs [OF that(2)])
    moreover have "\<bar>u / 2\<bar> = \<bar>u\<bar> / 2" "\<bar>v / 2\<bar> = \<bar>v\<bar> / 2" by simp_all
    ultimately show ?thesis unfolding half_reach_def by (simp add: halves_max)
  qed
  have hb: "halves b"
    unfolding b_def joint_radius_def
    by (intro halves_min halves_numeral hr d2)
  have b0: "0 \<le> b" unfolding b_def by (rule joint_radius_bounds)
  have b40: "b \<le> 40" unfolding b_def joint_radius_def by simp
  have big: "(40::real) \<le> 2 ^ 50" by simp
  have dbl: "double x" if "halves x" "\<bar>x\<bar> \<le> 3 * 2 ^ 50" for x
    using that by (intro halves_double) simp_all
  have dbl2: "double x" if "halves x" "\<bar>x\<bar> \<le> 2 * 2 ^ 50" for x
    using that by (intro dbl) simp_all
  have dbl1: "double x" if "halves x" "\<bar>x\<bar> \<le> 2 ^ 50" for x
    using that by (intro dbl) simp_all
  have dblf: "double x" if "halves x" "\<bar>x\<bar> \<le> 2 ^ 50 + 40" for x
    using that by (intro dbl) simp_all
  have "double (jx - ax)" "double (jy - ay)" "double (cx - jx)" "double (cy - jy)"
    by (intro dbl2 d difference_magnitude m)+
  moreover have "double ((jx - ax) / 2)" "double ((jy - ay) / 2)"
    "double ((cx - jx) / 2)" "double ((cy - jy) / 2)"
    by (intro dbl1 d2 difference_magnitude m)+
  moreover have "double (\<bar>jx - ax\<bar> - b)" "double (\<bar>jy - ay\<bar> - b)"
    by (intro dbl2 halves_diff halves_abs d hb pull_back_magnitude m b0 b40 big)+
  moreover have "double (ax + (\<bar>jx - ax\<bar> - b) * sgn (jx - ax))"
    "double (ay + (\<bar>jy - ay\<bar> - b) * sgn (jy - ay))"
    by (intro dbl halves_add halves_mult_sgn halves_diff halves_abs d hb i
        pull_back_magnitude m b0 b40 big)+
  moreover have "double (jx + b * sgn (cx - jx))" "double (jy + b * sgn (cy - jy))"
    by (intro dblf halves_add halves_mult_sgn hb i push_forward_magnitude m b0 b40)+
  ultimately show ?thesis
    unfolding unrounded_def defs [symmetric] b_def [symmetric] by simp
qed

lemmas js_eval =
  js_add_def js_sub_def js_mul_def js_div_def Math_abs_def Math_sign_def Math_min_def
  Math_max_def below_def signed_zero_def signed_inf_def fl_numeral fl_neg_numeral fl_1

lemmas joint_defs =
  x1_def y1_def x2_def y2_def br_def br1_def br2_def dx1_def dx2_def dy1_def dy2_def
  cornerRadius_def

lemmas double_eval = double_numeral double_0 double_1 double_uminus

lemma double_twice:
  assumes "\<bar>k\<bar> < 2 ^ 53"
  shows "double (2 * of_int k)"
  unfolding double_def using assms
  by (intro exI [of _ k] exI [of _ 1]) simp

text \<open>
  Where a step rounds, the points need not lie strictly between: with the joint two units
  to the right of a previous point at \<open>2 ^ 53\<close>, the pull-back point is the previous
  point itself.
\<close>

lemma pull_back_rounds:
  "double (2 ^ 53) \<and> double (2 ^ 53 + 2)
   \<and> x1 [Num (2 ^ 53), Num 0, Num (2 ^ 53 + 2), Num 0, Num (2 ^ 53 + 2), Num 2] 0 = Num (2 ^ 53)
   \<and> br [Num (2 ^ 53), Num 0, Num (2 ^ 53 + 2), Num 0, Num (2 ^ 53 + 2), Num 2] 0 = Num 1
   \<and> \<not> unrounded (2 ^ 53) 0 (2 ^ 53 + 2) 0 (2 ^ 53 + 2) 2"
proof -
  let ?ps = "[Num (2 ^ 53), Num 0, Num (2 ^ 53 + 2), Num 0, Num (2 ^ 53 + 2), Num 2]"
  have b: "br ?ps 0 = Num 1"
    by (simp add: joint_defs rd_def js_eval)
  have "x1 ?ps 0 = fl (2 ^ 53 + 1)"
    unfolding x1_def b dx1_def by (simp add: rd_def js_eval)
  then have x: "x1 ?ps 0 = Num (2 ^ 53)" by (simp only: fl_tie)
  have r: "joint_radius (2 ^ 53) 0 (2 ^ 53 + 2) 0 (2 ^ 53 + 2) 2 = 1"
    by (simp add: joint_radius_def half_reach_def)
  have "\<not> double (2 ^ 53 + 1)"
  proof
    assume "double (2 ^ 53 + 1)"
    then have "fl (2 ^ 53 + 1) = Num (2 ^ 53 + 1)" by (intro fl_exact) simp_all
    then show False unfolding fl_tie by simp
  qed
  then have "\<not> unrounded (2 ^ 53) 0 (2 ^ 53 + 2) 0 (2 ^ 53 + 2) 2"
    unfolding unrounded_def r by simp
  moreover have "double (2 * of_int (2 ^ 52))" "double (2 * of_int (2 ^ 52 + 1))"
    by (rule double_twice, simp)+
  then have "double (2 ^ 53)" "double (2 ^ 53 + 2)" by simp_all
  ultimately show ?thesis using x b by simp
qed

text \<open>A tie below 1 goes up to 1.\<close>

lemma nearest_tie_up: "nearest (1 - 1 / 2 ^ 54) = 1"
proof -
  let ?x = "1 - 1 / 2 ^ 54 :: real"
  have "2 powr of_int (- 1) \<le> \<bar>?x\<bar> \<and> \<bar>?x\<bar> < 2 powr (of_int (- 1) + 1)"
    by (simp add: powr_minus)
  then have "\<lfloor>log 2 \<bar>?x\<bar>\<rfloor> = - 1"
    by (subst floor_log_eq_powr_iff) simp_all
  then have "ulp ?x = 2 powr of_int (- 53)" by (simp add: ulp_def)
  also have "\<dots> = 1 / 2 ^ 53" by (simp add: powr_minus_divide)
  finally have u: "ulp ?x = 1 / 2 ^ 53" .
  have q: "?x / (1 / 2 ^ 53) = of_int (2 ^ 53 - 1) + 1 / 2" by simp
  have f: "\<lfloor>?x / (1 / 2 ^ 53)\<rfloor> = 2 ^ 53 - 1" unfolding q by (rule floor_unique) simp_all
  have r: "round_even (?x / (1 / 2 ^ 53)) = 2 ^ 53"
    unfolding round_even_def f unfolding q by simp
  show ?thesis unfolding nearest_def u r by simp
qed

lemma fl_tie_up: "fl (1 - 1 / 2 ^ 54) = Num 1"
  unfolding fl_def nearest_tie_up by simp

lemma two_powr_minus:
  "2 powr of_int (- 53) = (1 / 2 ^ 53 :: real)" "2 powr of_int (- 54) = (1 / 2 ^ 54 :: real)"
  by (simp_all add: powr_minus_divide)

lemma double_below_1: "double (1 - 1 / 2 ^ 53)"
proof -
  have "(1 - 1 / 2 ^ 53 :: real) = of_int (2 ^ 53 - 1) * (1 / 2 ^ 53)"
    by (simp add: algebra_simps)
  then have e: "(1 - 1 / 2 ^ 53 :: real) = of_int (2 ^ 53 - 1) * 2 powr of_int (- 53)"
    unfolding two_powr_minus .
  have b: "\<bar>2 ^ 53 - 1 :: int\<bar> < 2 ^ 53 \<and> - 1074 \<le> (- 53 :: int) \<and> (- 53 :: int) \<le> 971"
    by simp
  show ?thesis unfolding double_def
    using e b by blast
qed

lemma double_tiny: "double (1 / 2 ^ 54)"
proof -
  have e: "(1 / 2 ^ 54 :: real) = of_int 1 * 2 powr of_int (- 54)"
    unfolding two_powr_minus by simp
  have b: "\<bar>1 :: int\<bar> < 2 ^ 53 \<and> - 1074 \<le> (- 54 :: int) \<and> (- 54 :: int) \<le> 971"
    by simp
  show ?thesis unfolding double_def
    using e b by blast
qed

lemma js_sub_num: "a - b \<noteq> 0 \<Longrightarrow> b \<noteq> 0 \<Longrightarrow> js_sub (Num a) (Num b) = fl (a - b)"
  by (simp add: js_sub_def js_add_def)

text \<open>
  Where a difference rounds up, the radius exceeds half the length of the segment: the
  segment from \<open>- (1 - 1 / 2 ^ 53)\<close> to \<open>1 / 2 ^ 54\<close> on the x axis has a length below
  1, and the loop computes the radius \<open>1 / 2\<close> for it.
\<close>

lemma radius_rounds:
  "double (1 - 1 / 2 ^ 53) \<and> double (1 / 2 ^ 54)
   \<and> br [Num (- (1 - 1 / 2 ^ 53)), Num 0, Num (1 / 2 ^ 54), Num 0, Num (1 / 2 ^ 54), Num 100] 0
       = Num (1 / 2)
   \<and> max \<bar>1 / 2 ^ 54 - (- (1 - 1 / 2 ^ 53))\<bar> \<bar>0 - 0\<bar> / 2 < (1 / 2 :: real)"
proof -
  let ?ps = "[Num (- (1 - 1 / 2 ^ 53)), Num 0, Num (1 / 2 ^ 54), Num 0, Num (1 / 2 ^ 54), Num 100]"
  have d: "1 / 2 ^ 54 - (- (1 - 1 / 2 ^ 53)) = (1 - 1 / 2 ^ 54 :: real)"
    by simp
  have "js_sub (Num (1 / 2 ^ 54)) (Num (- (1 - 1 / 2 ^ 53)))
      = fl (1 / 2 ^ 54 - (- (1 - 1 / 2 ^ 53)))"
    by (rule js_sub_num) simp_all
  then have s: "js_sub (Num (1 / 2 ^ 54)) (Num (- (1 - 1 / 2 ^ 53))) = Num 1"
    unfolding d fl_tie_up .
  have h: "fl (1 / 2) = Num (1 / 2)"
    using fl_exact [OF double_half [of 1]] by simp
  have dx: "dx1 ?ps 0 = Num 1"
    unfolding dx1_def rd_def using s by simp
  have dy: "dy1 ?ps 0 = Num 0"
    unfolding dy1_def rd_def by (simp add: js_sub_def js_add_def signed_zero_def)
  have b1: "br1 ?ps 0 = Num (1 / 2)"
    unfolding br1_def dx dy by (simp add: js_eval cornerRadius_def h)
  have dx': "dx2 ?ps 0 = Num 0"
    unfolding dx2_def rd_def by (simp add: js_sub_def js_add_def signed_zero_def)
  have dy': "dy2 ?ps 0 = Num 100"
    unfolding dy2_def rd_def by (simp add: js_eval)
  have b2: "br2 ?ps 0 = Num 40"
    unfolding br2_def dx' dy' by (simp add: js_eval cornerRadius_def)
  have b: "br ?ps 0 = Num (1 / 2)"
    unfolding br_def b1 b2 by (simp add: js_eval)
  have l: "max \<bar>1 / 2 ^ 54 - (- (1 - 1 / 2 ^ 53))\<bar> \<bar>0 - 0\<bar> / 2 < (1 / 2 :: real)"
    unfolding d by simp
  show ?thesis
    by (intro conjI double_below_1 double_tiny b l)
qed

text \<open>
  C3, as far as it holds. Take a joint \<open>(jx, jy)\<close> between the points \<open>(ax, ay)\<close> and
  \<open>(cx, cy)\<close>, anywhere in the list, at which no step of the loop's arithmetic rounds.
  Then the radius \<open>br\<close> and the four coordinates the loop computes are finite; \<open>br\<close> is at
  least 0 and at most half the length of either adjacent segment, measured along its
  dominating axis, and hence also at most half its Euclidean length. The point the line
  is pulled back to lies strictly between the previous point and the joint exactly when
  the incoming segment is horizontal, vertical or diagonal and the outgoing segment does
  not have length zero; the point the curve ends at lies strictly between the joint and the
  next point exactly when the outgoing segment is horizontal, vertical or diagonal and the
  incoming one does not have length zero.
\<close>

theorem C3_joint_radius:
  fixes ax ay jx jy cx cy :: real and pre post :: "jsval list"
  assumes "unrounded ax ay jx jy cx cy"
  defines "ps \<equiv> pre @ [Num ax, Num ay, Num jx, Num jy, Num cx, Num cy] @ post"
    and "n \<equiv> int (length pre)"
  shows "is_fin (br ps n) \<and> is_fin (x1 ps n) \<and> is_fin (y1 ps n)
    \<and> is_fin (x2 ps n) \<and> is_fin (y2 ps n)
    \<and> 0 \<le> val (br ps n)
    \<and> val (br ps n) \<le> min (max \<bar>jx - ax\<bar> \<bar>jy - ay\<bar> / 2) (max \<bar>cx - jx\<bar> \<bar>cy - jy\<bar> / 2)
    \<and> val (br ps n)
        \<le> min (sqrt ((jx - ax)\<^sup>2 + (jy - ay)\<^sup>2) / 2) (sqrt ((cx - jx)\<^sup>2 + (cy - jy)\<^sup>2) / 2)
    \<and> (strictly_between (ax, ay) (jx, jy) (val (x1 ps n), val (y1 ps n))
         \<longleftrightarrow> straight (jx - ax) (jy - ay) \<and> (cx \<noteq> jx \<or> cy \<noteq> jy))
    \<and> (strictly_between (jx, jy) (cx, cy) (val (x2 ps n), val (y2 ps n))
         \<longleftrightarrow> straight (cx - jx) (cy - jy) \<and> (jx \<noteq> ax \<or> jy \<noteq> ay))"
proof -
  define b where "b = joint_radius ax ay jx jy cx cy"
  note v = joint_values [OF assms(1), of pre post, folded ps_def n_def b_def]
  note jb = joint_radius_bounds [of ax ay jx jy cx cy, folded b_def]
  have c: "b \<le> min (max \<bar>jx - ax\<bar> \<bar>jy - ay\<bar> / 2) (max \<bar>cx - jx\<bar> \<bar>cy - jy\<bar> / 2)"
    using jb(2,3) unfolding half_reach_bounds(2) by simp
  have e: "b \<le> min (sqrt ((jx - ax)\<^sup>2 + (jy - ay)\<^sup>2) / 2)
                  (sqrt ((cx - jx)\<^sup>2 + (cy - jy)\<^sup>2) / 2)"
    using jb(2,3) half_reach_bounds(3) [of "jx - ax" "jy - ay"]
      half_reach_bounds(3) [of "cx - jx" "cy - jy"] by simp
  have s1: "straight (jx - ax) (jy - ay) \<Longrightarrow> jx \<noteq> ax \<or> jy \<noteq> ay"
    and s2: "straight (cx - jx) (cy - jy) \<Longrightarrow> cx \<noteq> jx \<or> cy \<noteq> jy"
    by (auto simp: straight_def)
  have "strictly_between (ax, ay) (ax + (jx - ax), ay + (jy - ay))
             (ax + (\<bar>jx - ax\<bar> - b) * sgn (jx - ax), ay + (\<bar>jy - ay\<bar> - b) * sgn (jy - ay))
        \<longleftrightarrow> straight (jx - ax) (jy - ay) \<and> 0 < b"
    by (rule pull_back_iff [OF jb(1) jb(2)])
  then have pull: "strictly_between (ax, ay) (jx, jy)
             (ax + (\<bar>jx - ax\<bar> - b) * sgn (jx - ax), ay + (\<bar>jy - ay\<bar> - b) * sgn (jy - ay))
        \<longleftrightarrow> straight (jx - ax) (jy - ay) \<and> (cx \<noteq> jx \<or> cy \<noteq> jy)"
    unfolding jb(4) using s1 by auto
  have "strictly_between (jx, jy) (jx + (cx - jx), jy + (cy - jy))
             (jx + b * sgn (cx - jx), jy + b * sgn (cy - jy))
        \<longleftrightarrow> straight (cx - jx) (cy - jy) \<and> 0 < b"
    by (rule push_forward_iff [OF jb(1) jb(3)])
  then have push: "strictly_between (jx, jy) (cx, cy)
             (jx + b * sgn (cx - jx), jy + b * sgn (cy - jy))
        \<longleftrightarrow> straight (cx - jx) (cy - jy) \<and> (jx \<noteq> ax \<or> jy \<noteq> ay)"
    unfolding jb(4) using s2 by auto
  show ?thesis
    using v jb(1) c e pull push by simp
qed

theorem C3_joint_radius_witness:
  "unrounded 0 0 50 0 50 50
   \<and> straight (50 - 0) (0 - 0) \<and> straight (50 - 50) (50 - 0)
   \<and> br [Num 0, Num 0, Num 50, Num 0, Num 50, Num 50] 0 = Num 25
   \<and> strictly_between (0, 0) (50, 0) (25, 0)
   \<and> strictly_between (50, 0) (50, 50) (50, 25)"
proof -
  let ?ps = "[Num 0, Num 0, Num 50, Num 0, Num 50, Num 50]"
  have r: "joint_radius 0 0 50 0 50 50 = 25"
    by (simp add: joint_radius_def half_reach_def)
  have u: "unrounded 0 0 50 0 50 50"
    unfolding unrounded_def r by (simp add: double_eval)
  have st: "straight (50 - 0) (0 - 0)" "straight (50 - 50) (50 - 0)"
    by (simp_all add: straight_def)
  have ev: "br ?ps 0 = Num 25" "x1 ?ps 0 = Num 25" "y1 ?ps 0 = Num 0"
    "x2 ?ps 0 = Num 50" "y2 ?ps 0 = Num 25"
    by (simp_all add: joint_defs rd_def js_eval)
  have "strictly_between (0, 0) (50, 0) (val (x1 ?ps 0), val (y1 ?ps 0))
      \<and> strictly_between (50, 0) (50, 50) (val (x2 ?ps 0), val (y2 ?ps 0))"
    using C3_joint_radius [OF u, of "[]" "[]"] st by simp
  then show ?thesis using u st ev by simp
qed

text \<open>
  C3 as the specification states it fails where the incoming segment is slanted. From
  \<open>(0,0)\<close> over the joint \<open>(100,10)\<close> to \<open>(200,10)\<close> nothing rounds, the radius is 40,
  and the line is pulled back to \<open>(60,-30)\<close>, which is not on the segment from \<open>(0,0)\<close>
  to \<open>(100,10)\<close>: the radius is taken off each axis separately.
\<close>

theorem C3_counterexample:
  "unrounded 0 0 100 10 200 10
   \<and> x1 [Num 0, Num 0, Num 100, Num 10, Num 200, Num 10] 0 = Num 60
   \<and> y1 [Num 0, Num 0, Num 100, Num 10, Num 200, Num 10] 0 = Num (- 30)
   \<and> \<not> strictly_between (0, 0) (100, 10) (60, - 30)"
proof -
  have r: "joint_radius 0 0 100 10 200 10 = 40"
    by (simp add: joint_radius_def half_reach_def)
  have "unrounded 0 0 100 10 200 10"
    unfolding unrounded_def r by (simp add: double_eval)
  then show ?thesis
    by (simp add: joint_defs rd_def js_eval strictly_between_def)
qed

section \<open>Drawing and rendering in the store\<close>

text \<open>
  What \<open>draw\<close> and \<open>sceneFunc\<close> do to the store: \<open>draw\<close> writes to new arrays only,
  the last of which ends up holding the planned points, and advances \<open>Layout.key\<close>;
  \<open>sceneFunc\<close> appends its commands to the calls the context has received and writes
  nothing else.
\<close>

lemma alloc_facts:
  "contents (snd (alloc xs s)) (fst (alloc xs s)) = xs"
  "fst (alloc xs s) = next_addr s"
  "next_addr (snd (alloc xs s)) = next_addr s + 1"
  "a \<noteq> next_addr s \<Longrightarrow> arrays (snd (alloc xs s)) a = arrays s a"
  "Layout_key (snd (alloc xs s)) = Layout_key s"
  "ctx (snd (alloc xs s)) = ctx s"
  "contents (snd (alloc xs s)) (next_addr s) = xs"
  by (simp_all add: alloc_def contents_def)

lemma reduce_steps_Nil: "reduce_steps [] init = init"
  by (simp add: reduce_steps_def)

lemma reduce_steps_step:
  "reduce_steps (step # steps) init =
     reduce_steps steps
       (init @ (case step (rd init (len init - 2)) (rd init (len init - 1)) of (a, b) \<Rightarrow> [a, b]))"
  by (simp add: reduce_steps_def)

lemma reduce_run_facts:
  "contents (snd (reduce_run steps p s)) (fst (reduce_run steps p s))
     = reduce_steps steps (contents s p)
   \<and> next_addr s \<le> next_addr (snd (reduce_run steps p s))
   \<and> (fst (reduce_run steps p s) = p \<or> next_addr s \<le> fst (reduce_run steps p s))
   \<and> (\<forall>a. a < next_addr s \<longrightarrow> arrays (snd (reduce_run steps p s)) a = arrays s a)
   \<and> Layout_key (snd (reduce_run steps p s)) = Layout_key s
   \<and> ctx (snd (reduce_run steps p s)) = ctx s"
proof (induction steps arbitrary: p s)
  case Nil
  show ?case by (simp add: reduce_steps_Nil)
next
  case (Cons step steps)
  obtain a b where st: "step (rd (contents s p) (len (contents s p) - 2))
      (rd (contents s p) (len (contents s p) - 1)) = (a, b)"
    by (cases "step (rd (contents s p) (len (contents s p) - 2))
      (rd (contents s p) (len (contents s p) - 1))")
  define p' where "p' = fst (alloc (contents s p @ [a, b]) s)"
  define s' where "s' = snd (alloc (contents s p @ [a, b]) s)"
  have run: "reduce_run (step # steps) p s = reduce_run steps p' s'"
    by (simp add: st p'_def s'_def split: prod.splits)
  have al: "contents s' p' = contents s p @ [a, b]" "p' = next_addr s"
    "next_addr s' = next_addr s + 1" "Layout_key s' = Layout_key s" "ctx s' = ctx s"
    unfolding p'_def s'_def by (simp_all add: alloc_facts)
  have old: "arrays s' x = arrays s x" if "x < next_addr s" for x
    unfolding s'_def using that by (simp add: alloc_facts)
  note ih = Cons.IH [of p' s']
  have "reduce_steps (step # steps) (contents s p) = reduce_steps steps (contents s' p')"
    by (simp add: reduce_steps_step st al(1))
  moreover have "fst (reduce_run steps p' s') = p' \<or> next_addr s' \<le> fst (reduce_run steps p' s')"
    using ih by blast
  then have "next_addr s \<le> fst (reduce_run steps p' s')"
    using al(2,3) by auto
  moreover have "arrays (snd (reduce_run steps p' s')) x = arrays s x" if "x < next_addr s" for x
  proof -
    have "x < next_addr s'" using that al(3) by simp
    then have "arrays (snd (reduce_run steps p' s')) x = arrays s' x" using ih by blast
    then show ?thesis using old [OF that] by simp
  qed
  ultimately show ?case
    unfolding run using ih al(3,4,5) by simp
qed

lemma draw_with_facts:
  "fst (snd (draw_with steps this s)) = this"
  "contents (snd (snd (draw_with steps this s))) (node_points (fst (draw_with steps this s)))
     = draw_points (arrow_from this) steps"
  "node_key (fst (draw_with steps this s)) = ToNumber (Layout_key s)"
  "Layout_key (snd (snd (draw_with steps this s))) = js_add (ToNumber (Layout_key s)) (Num 1)"
  "ctx (snd (snd (draw_with steps this s))) = ctx s"
  "next_addr s \<le> node_points (fst (draw_with steps this s))"
  "next_addr s \<le> next_addr (snd (snd (draw_with steps this s)))"
  "a < next_addr s \<Longrightarrow> arrays (snd (snd (draw_with steps this s))) a = arrays s a"
proof -
  define init where "init = fst (alloc [vis_x (arrow_from this), vis_y (arrow_from this)] s)"
  define s0 where "s0 = snd (alloc [vis_x (arrow_from this), vis_y (arrow_from this)] s)"
  define points where "points = fst (reduce_run steps init s0)"
  define s1 where "s1 = snd (reduce_run steps init s0)"
  define s2 where "s2 = splice_0_2 points s1"
  have d: "draw_with steps this s =
      (\<lparr>node_key = ToNumber (Layout_key s2), node_points = points\<rparr>, this,
       s2\<lparr>Layout_key := js_add (ToNumber (Layout_key s2)) (Num 1)\<rparr>)"
    by (simp add: draw_with_def init_def s0_def points_def s1_def s2_def split: prod.splits)
  have al: "contents s0 init = [vis_x (arrow_from this), vis_y (arrow_from this)]"
    "init = next_addr s" "next_addr s0 = next_addr s + 1" "Layout_key s0 = Layout_key s"
    "ctx s0 = ctx s"
    unfolding init_def s0_def by (simp_all add: alloc_facts)
  have old0: "arrays s0 x = arrays s x" if "x < next_addr s" for x
    unfolding s0_def using that by (simp add: alloc_facts)
  note rf = reduce_run_facts [of steps init s0, folded points_def s1_def]
  have pts: "next_addr s \<le> points" using rf al(2,3) by auto
  have c1: "contents s1 points = reduce_steps steps [vis_x (arrow_from this), vis_y (arrow_from this)]"
    using rf al(1) by simp
  have c2: "contents s2 points = drop 2 (contents s1 points)"
    by (simp add: s2_def splice_0_2_def contents_def)
  have k2: "Layout_key s2 = Layout_key s" "ctx s2 = ctx s" "next_addr s2 = next_addr s1"
    using rf al by (simp_all add: s2_def splice_0_2_def)
  have old2: "arrays s2 x = arrays s x" if "x < next_addr s" for x
  proof -
    have "x \<noteq> points" using that pts by simp
    moreover have "arrays s1 x = arrays s0 x" using rf that al(3) by simp
    ultimately show ?thesis using old0 [OF that] by (simp add: s2_def splice_0_2_def)
  qed
  show "fst (snd (draw_with steps this s)) = this" by (simp add: d)
  show "contents (snd (snd (draw_with steps this s))) (node_points (fst (draw_with steps this s)))
     = draw_points (arrow_from this) steps"
    using c2 c1 by (simp add: d draw_points_def contents_def)
  show "node_key (fst (draw_with steps this s)) = ToNumber (Layout_key s)"
    by (simp add: d k2)
  show "Layout_key (snd (snd (draw_with steps this s))) = js_add (ToNumber (Layout_key s)) (Num 1)"
    by (simp add: d k2)
  show "ctx (snd (snd (draw_with steps this s))) = ctx s" by (simp add: d k2)
  show "next_addr s \<le> node_points (fst (draw_with steps this s))" by (simp add: d pts)
  show "next_addr s \<le> next_addr (snd (snd (draw_with steps this s)))"
    using rf al(3) by (simp add: d k2)
  show "arrays (snd (snd (draw_with steps this s))) a = arrays s a" if "a < next_addr s"
    using old2 [OF that] by (simp add: d)
qed

lemmas draw_facts =
  draw_with_facts [where steps = "calculateSteps this" and this = this, folded draw_def]
  for this

lemma ctx_call_frame [simp]:
  "arrays (ctx_call c s) = arrays s" "next_addr (ctx_call c s) = next_addr s"
  "Layout_key (ctx_call c s) = Layout_key s" "contents (ctx_call c s) p = contents s p"
  "ctx (ctx_call c s) = ctx s @ [c]"
  by (simp_all add: ctx_call_def contents_def)

lemma ctx_append_frame:
  "arrays (s\<lparr>ctx := cs\<rparr>) = arrays s" "contents (s\<lparr>ctx := cs\<rparr>) p = contents s p"
  by (simp_all add: contents_def)

lemma ctx_call_append: "ctx_call c (s\<lparr>ctx := cs\<rparr>) = s\<lparr>ctx := cs @ [c]\<rparr>"
  by (simp add: ctx_call_def)

lemma ctx_call_eq: "ctx_call c s = s\<lparr>ctx := ctx s @ [c]\<rparr>"
  by (simp add: ctx_call_def)

lemma corner_loop_stop: "len points - 4 \<le> n \<Longrightarrow> corner_loop points n = []"
  by (simp add: corner_loop.simps)

lemma corner_loop_step:
  "n < len points - 4 \<Longrightarrow>
   corner_loop points n =
     LineTo (x1 points n) (y1 points n)
     # QuadraticCurveTo (rd points (n + 2)) (rd points (n + 3)) (x2 points n) (y2 points n)
     # corner_loop points (n + 2)"
  by (subst corner_loop.simps) (simp add: ac_simps)

lemma corner_loop_run_eq:
  "corner_loop_run p n s = s\<lparr>ctx := ctx s @ corner_loop (contents s p) n\<rparr>"
proof (induction p n s rule: corner_loop_run.induct)
  case (1 p n s)
  show ?case
  proof (cases "n < len (contents s p) - 4")
    case False
    then show ?thesis
      by (subst corner_loop_run.simps) (simp add: corner_loop_stop)
  next
    case True
    define s1 where
      "s1 = ctx_call (LineTo (x1 (contents s p) n) (y1 (contents s p) n)) s"
    define s2 where
      "s2 = ctx_call
              (QuadraticCurveTo (rd (contents s1 p) (n + 2 + 0)) (rd (contents s1 p) (n + 2 + 1))
                 (js_add (rd (contents s1 p) (n + 2 + 0))
                    (js_mul (br (contents s p) n) (Math_sign (dx2 (contents s p) n))))
                 (js_add (rd (contents s1 p) (n + 2 + 1))
                    (js_mul (br (contents s p) n) (Math_sign (dy2 (contents s p) n)))))
              s1"
    have run: "corner_loop_run p n s = corner_loop_run p (n + 2) s2"
      using True by (subst corner_loop_run.simps) (simp add: s1_def s2_def)
    have c: "contents s1 p = contents s p" "contents s2 p = contents s p"
      by (simp_all add: s1_def s2_def)
    have s2: "s2 = s\<lparr>ctx := ctx s @
        [LineTo (x1 (contents s p) n) (y1 (contents s p) n),
         QuadraticCurveTo (rd (contents s p) (n + 2)) (rd (contents s p) (n + 3))
           (x2 (contents s p) n) (y2 (contents s p) n)]\<rparr>"
      unfolding s2_def c unfolding s1_def
      by (simp add: ctx_call_def x2_def y2_def ac_simps)
    have "corner_loop_run p (n + 2) s2 = s2\<lparr>ctx := ctx s2 @ corner_loop (contents s2 p) (n + 2)\<rparr>"
      using "1.IH" [OF True] by (simp add: s1_def s2_def)
    then show ?thesis
      unfolding run c using True by (simp add: s2 corner_loop_step)
  qed
qed

lemma path_body_run_eq:
  "path_body_run p s = s\<lparr>ctx := ctx s @ path_body (contents s p)\<rparr>"
  by (simp add: path_body_run_def path_body_def corner_loop_run_eq ctx_call_eq ctx_append_frame)

lemma move_to_start_eq:
  "move_to_start p s =
     s\<lparr>ctx := ctx s @ [BeginPath, MoveTo (rd (contents s p) 0) (rd (contents s p) 1)]\<rparr>"
  by (simp add: move_to_start_def ctx_call_eq ctx_append_frame)

lemma sceneFunc_path_run_eq:
  "sceneFunc_path_run p s = s\<lparr>ctx := ctx s @ sceneFunc_path (contents s p)\<rparr>"
  by (simp add: sceneFunc_path_run_def sceneFunc_path_def move_to_start_eq path_body_run_eq
      ctx_call_eq ctx_append_frame)

lemma arrowhead_run_eq:
  "arrowhead_run M p s = s\<lparr>ctx := ctx s @ arrowhead M (contents s p)\<rparr>"
  by (simp add: arrowhead_run_def arrowhead_def ctx_call_eq ctx_append_frame)

lemma sceneFunc_arrow_run_eq:
  "sceneFunc_arrow_run M p s = s\<lparr>ctx := ctx s @ sceneFunc_arrow M (contents s p)\<rparr>"
  by (simp add: sceneFunc_arrow_run_def sceneFunc_arrow_def move_to_start_eq path_body_run_eq
      arrowhead_run_eq ctx_call_eq ctx_append_frame)

lemma path_body_short:
  "length points < 4 \<Longrightarrow>
   path_body points = [LineTo (rd points (len points - 2)) (rd points (len points - 1))]"
  by (simp add: path_body_def len_def corner_loop_stop)

section \<open>Lists too short to hold two points\<close>

text \<open>
  C1, as the code has it. \<open>sceneFunc\<close> has no check of the length. On a list of fewer
  than four coordinates, the empty one included, it does not fail and the corner loop
  does not run, so no curve is drawn; but it still begins a path, moves to
  \<open>(points[0], points[1])\<close>, draws a line to the last two entries and strokes, and the
  single-shape variant adds its three arrowhead commands before the stroke. An index
  outside the list reads as \<open>undefined\<close>.
\<close>

theorem C1_short_list:
  assumes "length points < 4"
  shows "corner_loop points 0 = []
    \<and> sceneFunc_path points =
        [BeginPath, MoveTo (rd points 0) (rd points 1),
         LineTo (rd points (len points - 2)) (rd points (len points - 1)), StrokeShape]
    \<and> sceneFunc_arrow M points =
        [BeginPath, MoveTo (rd points 0) (rd points 1),
         LineTo (rd points (len points - 2)) (rd points (len points - 1))]
        @ arrowhead M points @ [StrokeShape]"
  using assms
  by (simp add: sceneFunc_path_def sceneFunc_arrow_def path_body_short corner_loop_stop len_def)

theorem C1_short_list_witness:
  "length [Num 100, Num 0] < 4
   \<and> sceneFunc_path [Num 100, Num 0] =
        [BeginPath, MoveTo (Num 100) (Num 0), LineTo (Num 100) (Num 0), StrokeShape]"
  using C1_short_list [of "[Num 100, Num 0]"]
  by (simp add: rd_def len_def)

text \<open>
  C1 as the specification states it fails: on the empty list, the one \<open>draw\<close> produces
  when no target is set, four commands are emitted, two of them with coordinates read
  outside the list.
\<close>

theorem C1_counterexample:
  "sceneFunc_path [] =
     [BeginPath, MoveTo Undefined Undefined, LineTo Undefined Undefined, StrokeShape]
   \<and> sceneFunc_path [] \<noteq> []
   \<and> (\<forall>M. sceneFunc_arrow M [] \<noteq> [])"
  by (simp add: sceneFunc_path_def sceneFunc_arrow_def path_body_def len_def rd_def
      corner_loop.simps)

section \<open>The planning fold\<close>

lemma rd_append_last2:
  "rd (acc @ [p, q]) (len (acc @ [p, q]) - 2) = p"
  "rd (acc @ [p, q]) (len (acc @ [p, q]) - 1) = q"
proof -
  have l: "len (acc @ [p, q]) - 2 = int (length acc)"
    "len (acc @ [p, q]) - 1 = int (length acc) + 1"
    by (simp_all add: len_def)
  have n: "nat (int (length acc) + 1) = Suc (length acc)" by simp
  show "rd (acc @ [p, q]) (len (acc @ [p, q]) - 2) = p"
    unfolding l rd_def by (simp add: nth_append)
  show "rd (acc @ [p, q]) (len (acc @ [p, q]) - 1) = q"
    unfolding l rd_def n by (simp add: nth_append)
qed

lemma reduce_steps_Cons:
  "reduce_steps (s # ss) (acc @ [p, q]) =
     (case s p q of (a, b) \<Rightarrow> reduce_steps ss ((acc @ [p, q]) @ [a, b]))"
  by (simp add: reduce_steps_def rd_append_last2 split: prod.splits)

lemma reduce_steps_plan:
  "reduce_steps steps (acc @ [p, q]) = acc @ [p, q] @ plan_spec p q steps"
proof (induction steps arbitrary: acc p q)
  case Nil
  show ?case by (simp add: reduce_steps_Nil)
next
  case (Cons s ss)
  obtain a b where sab: "s p q = (a, b)" by (cases "s p q")
  have "reduce_steps (s # ss) (acc @ [p, q]) = reduce_steps ss ((acc @ [p, q]) @ [a, b])"
    by (simp add: reduce_steps_Cons sab)
  also have "\<dots> = (acc @ [p, q]) @ [a, b] @ plan_spec a b ss"
    by (rule Cons.IH)
  finally show ?case by (simp add: sab)
qed

lemma length_plan_spec: "length (plan_spec x y steps) = 2 * length steps"
  by (induction steps arbitrary: x y) (auto split: prod.splits)

lemma draw_points_plan_spec:
  "draw_points from steps = plan_spec (vis_x from) (vis_y from) steps"
  using reduce_steps_plan [of steps "[]" "vis_x from" "vis_y from"]
  by (simp add: draw_points_def)

text \<open>
  C2. The fold of \<open>draw\<close> starts from the origin's two coordinates, calls each step in
  order on the last two accumulated coordinates and appends what it returns; after the
  first two values are removed, the result is the specification's plan: the output of
  each step fed to the next, \<open>2 * k\<close> values for \<open>k\<close> steps, none for no step.
\<close>

theorem C2_draw_points_plan:
  "reduce_steps [] [vis_x from, vis_y from] = [vis_x from, vis_y from]
   \<and> reduce_steps steps [vis_x from, vis_y from]
       = [vis_x from, vis_y from] @ plan_spec (vis_x from) (vis_y from) steps
   \<and> draw_points from steps = plan_spec (vis_x from) (vis_y from) steps
   \<and> length (draw_points from steps) = 2 * length steps
   \<and> draw_points from [] = []"
proof -
  have "reduce_steps steps [vis_x from, vis_y from]
       = [vis_x from, vis_y from] @ plan_spec (vis_x from) (vis_y from) steps"
    using reduce_steps_plan [of steps "[]" "vis_x from" "vis_y from"] by simp
  then show ?thesis
    by (simp add: draw_points_plan_spec length_plan_spec reduce_steps_Nil)
qed

section \<open>Control points\<close>

lemma controls_append: "controls (cs @ ds) = controls cs @ controls ds"
  by (induction cs rule: controls.induct) auto

lemma controls_corner_loop:
  "controls (corner_loop points n) =
     map (\<lambda>j. (rd points (n + 2 + 2 * int j), rd points (n + 3 + 2 * int j)))
       [0..<nat ((len points - 3 - n) div 2)]"
proof (induction points n rule: corner_loop.induct)
  case (1 points n)
  show ?case
  proof (cases "n < len points - 4")
    case False
    then have "nat ((len points - 3 - n) div 2) = 0" by simp
    with False show ?thesis by (simp add: corner_loop_stop)
  next
    case True
    define k where "k = nat ((len points - 3 - (n + 2)) div 2)"
    have cnt: "nat ((len points - 3 - n) div 2) = Suc k"
      using True unfolding k_def by (simp add: nat_eq_iff)
    have "controls (corner_loop points n) =
            (rd points (n + 2), rd points (n + 3)) # controls (corner_loop points (n + 2))"
      using True by (simp add: corner_loop_step)
    also have "controls (corner_loop points (n + 2)) =
        map (\<lambda>j. (rd points (n + 2 + 2 + 2 * int j), rd points (n + 2 + 3 + 2 * int j)))
          [0..<k]"
      using "1.IH" [OF True] by (simp add: k_def)
    also have "\<dots> =
        map (\<lambda>j. (rd points (n + 2 + 2 * int j), rd points (n + 3 + 2 * int j)))
          (map Suc [0..<k])"
      by (simp add: algebra_simps)
    finally show ?thesis
      unfolding cnt by (simp add: upt_conv_Cons map_Suc_upt del: upt_Suc)
  qed
qed

lemma pairs_nth:
  "pairs xs = map (\<lambda>j. (xs ! (2 * j), xs ! (2 * j + 1))) [0..<length xs div 2]"
proof (induction xs rule: pairs.induct)
  case (1 a b r)
  have "[0..<length (a # b # r) div 2] = 0 # map Suc [0..<length r div 2]"
    by (simp add: upt_conv_Cons map_Suc_upt del: upt_Suc)
  then show ?case using 1 by (simp add: comp_def)
qed simp_all

lemma tl_upt_map: "tl (map f [0..<m]) = map (\<lambda>j. f (Suc j)) [0..<m - 1]"
proof (cases m)
  case 0
  then show ?thesis by simp
next
  case (Suc k)
  have "tl (map f [0..<Suc k]) = map f (map Suc [0..<k])"
    by (simp add: map_tl [symmetric] map_Suc_upt del: upt_Suc map_map)
  then show ?thesis using Suc by (simp add: comp_def)
qed

lemma butlast_upt_map: "butlast (map f [0..<m]) = map f [0..<m - 1]"
  by (cases m) (simp_all add: map_butlast [symmetric])

lemma joints_nth:
  "joints xs = map (\<lambda>j. (xs ! (2 * j + 2), xs ! (2 * j + 3))) [0..<length xs div 2 - 2]"
proof -
  have "joints xs =
      map (\<lambda>j. (xs ! (2 * Suc j), xs ! (2 * Suc j + 1))) [0..<length xs div 2 - 1 - 1]"
    unfolding joints_def pairs_nth tl_upt_map butlast_upt_map ..
  also have "\<dots> = map (\<lambda>j. (xs ! (2 * j + 2), xs ! (2 * j + 3))) [0..<length xs div 2 - 2]"
    by (simp add: numeral_3_eq_3 numeral_2_eq_2)
  finally show ?thesis .
qed

lemma controls_corner_loop_joints:
  assumes "even (length points)"
  shows "controls (corner_loop points 0) = joints points"
proof -
  obtain m where m: "length points = 2 * m" using assms by (auto elim: evenE)
  have cnt: "nat ((len points - 3 - 0) div 2) = m - 2"
    by (simp add: len_def m nat_eq_iff) linarith
  have pt: "(rd points (0 + 2 + 2 * int j), rd points (0 + 3 + 2 * int j))
      = (points ! (2 * j + 2), points ! (2 * j + 3))" if "j < m - 2" for j
  proof -
    have "nat (2 + 2 * int j) = 2 * j + 2" "nat (3 + 2 * int j) = 2 * j + 3" by simp_all
    moreover have "2 + 2 * int j < 2 * int m" "3 + 2 * int j < 2 * int m"
      using that by linarith+
    ultimately show ?thesis by (simp add: rd_def m)
  qed
  have "controls (corner_loop points 0) =
      map (\<lambda>j. (rd points (0 + 2 + 2 * int j), rd points (0 + 3 + 2 * int j))) [0..<m - 2]"
    unfolding controls_corner_loop cnt ..
  also have "\<dots> = map (\<lambda>j. (points ! (2 * j + 2), points ! (2 * j + 3))) [0..<m - 2]"
    by (rule map_cong [OF refl], rule pt) simp
  also have "\<dots> = joints points"
    by (simp add: joints_nth m)
  finally show ?thesis .
qed

lemma path_body_controls: "controls (path_body points) = controls (corner_loop points 0)"
  by (simp add: path_body_def controls_append corner_loop_stop)

lemma arrowhead_controls: "controls (arrowhead M points) = []"
  by (simp add: arrowhead_def)

text \<open>
  C4. In both variants the control points of the curves drawn for a list of points are,
  in order, the literal coordinates of its interior joints. The scenario of the
  specification is the instance checked: for \<open>(0,0)\<close>, \<open>(50,0)\<close>, \<open>(50,50)\<close> the joint radius is
  25, the line stops at \<open>(25,0)\<close>, and the curve goes over the control point \<open>(50,0)\<close>
  to \<open>(50,25)\<close>.
\<close>

theorem C4_control_is_joint:
  assumes "even (length points)"
  shows "controls (sceneFunc_path points) = joints points
       \<and> controls (sceneFunc_arrow M points) = joints points"
  using assms
  by (simp add: sceneFunc_path_def sceneFunc_arrow_def controls_append path_body_controls
      arrowhead_controls controls_corner_loop_joints)

theorem C4_control_is_joint_witness:
  "even (length [Num 0, Num 0, Num 50, Num 0, Num 50, Num 50])
   \<and> br [Num 0, Num 0, Num 50, Num 0, Num 50, Num 50] 0 = Num 25
   \<and> sceneFunc_path [Num 0, Num 0, Num 50, Num 0, Num 50, Num 50] =
       [BeginPath, MoveTo (Num 0) (Num 0), LineTo (Num 25) (Num 0),
        QuadraticCurveTo (Num 50) (Num 0) (Num 50) (Num 25), LineTo (Num 50) (Num 50),
        StrokeShape]
   \<and> controls (sceneFunc_path [Num 0, Num 0, Num 50, Num 0, Num 50, Num 50])
       = [(Num 50, Num 0)]
   \<and> joints [Num 0, Num 0, Num 50, Num 0, Num 50, Num 50] = [(Num 50, Num 0)]"
  using C4_control_is_joint [of "[Num 0, Num 0, Num 50, Num 0, Num 50, Num 50]"]
  by (simp add: joints_def sceneFunc_path_def path_body_def len_def rd_def
      corner_loop.simps [of _ 0] corner_loop.simps [of _ 2]
      joint_defs js_eval)

section \<open>Hovering leaves the shape as it was, but for the width\<close>

text \<open>
  C8. Entering sets the stroke width to the configured hovered width and leaving sets it
  to the configured normal width, so after any sequence of events that ends in a leave the
  width is the normal one; and whatever the events, the target differs from what it was
  before in its stroke width at most.
\<close>

theorem C8_hover:
  "strokeWidth (onMouseEnter Config t) = ArrowHoveredStrokeWidth Config
   \<and> strokeWidth (onMouseLeave Config t) = ArrowStrokeWidth Config
   \<and> strokeWidth (handle_all Config t (evs @ [Leave])) = ArrowStrokeWidth Config
   \<and> strokeWidth (handle_all Config t (evs @ [Enter])) = ArrowHoveredStrokeWidth Config
   \<and> onMouseEnter Config t = t\<lparr>strokeWidth := ArrowHoveredStrokeWidth Config\<rparr>
   \<and> onMouseLeave Config t = t\<lparr>strokeWidth := ArrowStrokeWidth Config\<rparr>
   \<and> (handle_all Config t evs)\<lparr>strokeWidth := w\<rparr> = t\<lparr>strokeWidth := w\<rparr>"
proof -
  have frame: "(handle_all Config t evs)\<lparr>strokeWidth := w\<rparr> = t\<lparr>strokeWidth := w\<rparr>"
    for t :: "'a attrs_scheme" and w
  proof (induction evs arbitrary: t)
    case Nil
    show ?case by (simp add: handle_all_def)
  next
    case (Cons e es)
    have "(handle_all Config t (e # es))\<lparr>strokeWidth := w\<rparr>
        = (handle_all Config (handle Config t e) es)\<lparr>strokeWidth := w\<rparr>"
      by (simp add: handle_all_def)
    also have "\<dots> = (handle Config t e)\<lparr>strokeWidth := w\<rparr>" by (rule Cons.IH)
    also have "\<dots> = t\<lparr>strokeWidth := w\<rparr>"
      by (cases e) (simp_all add: onMouseEnter_def onMouseLeave_def setHoveredStyle_def
          setUnhoveredStyle_def)
    finally show ?case .
  qed
  show ?thesis
    by (simp add: frame)
      (simp add: handle_all_def onMouseEnter_def onMouseLeave_def setHoveredStyle_def
        setUnhoveredStyle_def)
qed

section \<open>The base arrow\<close>

lemma nan_chain [simp]:
  "js_add NaN b = NaN" "js_add a NaN = NaN" "js_add Undefined b = NaN" "js_add a Undefined = NaN"
  "js_sub NaN b = NaN" "js_sub a NaN = NaN" "js_sub Undefined b = NaN" "js_sub a Undefined = NaN"
  "js_mul NaN b = NaN" "js_mul a NaN = NaN"
  "Math_cos M NaN = NaN" "Math_sin M NaN = NaN"
  "Math_atan2 M NaN x = NaN" "Math_atan2 M y NaN = NaN"
  by (simp_all add: js_add_def js_sub_def js_mul_def Math_cos_def Math_sin_def Math_atan2_def)

lemma js_sub_self: "js_sub (Num x) (Num x) = Num 0"
  by (simp add: js_sub_def js_add_def signed_zero_def)

lemma atan2_origin: "Math_atan2 M (Num 0) (Num 0) = Num 0"
  by (simp add: Math_atan2_def)

lemma scene_single_point:
  "sceneFunc_path [Num x, Num y] =
     [BeginPath, MoveTo (Num x) (Num y), LineTo (Num x) (Num y), StrokeShape]"
  "sceneFunc_arrow M [Num x, Num y] =
     [BeginPath, MoveTo (Num x) (Num y), LineTo (Num x) (Num y), LineTo NaN NaN,
      MoveTo (Num x) (Num y), LineTo NaN NaN, StrokeShape]"
  "angle M [Num x, Num y] = NaN"
  by (simp_all add: sceneFunc_path_def sceneFunc_arrow_def path_body_def len_def rd_def
      corner_loop.simps arrowhead_def angle_def)

lemma draw_base:
  "contents (snd (snd (draw (arrow_to this to) s))) (node_points (fst (draw (arrow_to this to) s)))
     = [vis_x to, vis_y to]"
  unfolding draw_facts
  by (simp add: calculateSteps_def arrow_to_def draw_points_def reduce_steps_def)

lemma draw_then_scene:
  "ctx (sceneFunc_arrow_run M (node_points (fst (draw this s))) (snd (snd (draw this s))))
     = ctx s @ sceneFunc_arrow M (draw_points (arrow_from this) (calculateSteps this))"
  "ctx (sceneFunc_path_run (node_points (fst (draw this s))) (snd (snd (draw this s))))
     = ctx s @ sceneFunc_path (draw_points (arrow_from this) (calculateSteps this))"
  by (simp_all add: sceneFunc_arrow_run_eq sceneFunc_path_run_eq draw_facts)

text \<open>
  C5, at its input: what the code does for the base arrow from \<open>(0,0)\<close> to \<open>(100,0)\<close>.
  The array \<open>draw\<close> hands to the shape holds \<open>[100, 0]\<close>, as the specification says.
  \<open>sceneFunc\<close> then starts the path at \<open>(100,0)\<close> and draws a line of length zero to
  the same point, not the line from \<open>(0,0)\<close>; in the single-shape variant the heading is
  computed from entries before the start of the array and is \<open>NaN\<close>, and so are both
  ends of the arrowhead. On the two points \<open>[0, 0, 100, 0]\<close> the same \<open>sceneFunc\<close> draws
  what the specification describes: the line from \<open>(0,0)\<close> to \<open>(100,0)\<close>, no curve, the
  heading 0 and the two ends \<open>100 - 10 * Math.cos(0 \<mp> Math.PI / 6)\<close>,
  \<open>0 - 10 * Math.sin(0 \<mp> Math.PI / 6)\<close>.
\<close>

theorem C5_base_arrow:
  fixes s0 s :: store and M :: math
  defines "this \<equiv> arrow_to (fst (GenericArrow \<lparr>vis_x = Num 0, vis_y = Num 0\<rparr> s0))
                      \<lparr>vis_x = Num 100, vis_y = Num 0\<rparr>"
  shows "contents (snd (snd (draw this s))) (node_points (fst (draw this s))) = [Num 100, Num 0]
   \<and> node_key (fst (draw this s)) = ToNumber (Layout_key s)
   \<and> ctx (sceneFunc_path_run (node_points (fst (draw this s))) (snd (snd (draw this s)))) =
       ctx s @ [BeginPath, MoveTo (Num 100) (Num 0), LineTo (Num 100) (Num 0), StrokeShape]
   \<and> ctx (sceneFunc_arrow_run M (node_points (fst (draw this s))) (snd (snd (draw this s)))) =
       ctx s @ [BeginPath, MoveTo (Num 100) (Num 0), LineTo (Num 100) (Num 0), LineTo NaN NaN,
                MoveTo (Num 100) (Num 0), LineTo NaN NaN, StrokeShape]
   \<and> sceneFunc_path [Num 100, Num 0] =
       [BeginPath, MoveTo (Num 100) (Num 0), LineTo (Num 100) (Num 0), StrokeShape]
   \<and> sceneFunc_arrow M [Num 100, Num 0] =
       [BeginPath, MoveTo (Num 100) (Num 0), LineTo (Num 100) (Num 0), LineTo NaN NaN,
        MoveTo (Num 100) (Num 0), LineTo NaN NaN, StrokeShape]
   \<and> angle M [Num 100, Num 0] = NaN
   \<and> angle M [Num 0, Num 0, Num 100, Num 0] = Num 0
   \<and> sceneFunc_arrow M [Num 0, Num 0, Num 100, Num 0] =
       [BeginPath, MoveTo (Num 0) (Num 0), LineTo (Num 100) (Num 0),
        LineTo
          (js_sub (Num 100)
             (js_mul (Num 10) (Math_cos M (js_sub (Num 0) (js_div Math_PI (Num 6))))))
          (js_sub (Num 0)
             (js_mul (Num 10) (Math_sin M (js_sub (Num 0) (js_div Math_PI (Num 6)))))),
        MoveTo (Num 100) (Num 0),
        LineTo
          (js_sub (Num 100)
             (js_mul (Num 10) (Math_cos M (js_add (Num 0) (js_div Math_PI (Num 6))))))
          (js_sub (Num 0)
             (js_mul (Num 10) (Math_sin M (js_add (Num 0) (js_div Math_PI (Num 6)))))),
        StrokeShape]"
proof -
  have f: "arrow_from this = \<lparr>vis_x = Num 0, vis_y = Num 0\<rparr>"
    "calculateSteps this = [\<lambda>x y. (Num 100, Num 0)]"
    by (simp_all add: this_def arrow_to_def GenericArrow_def calculateSteps_def
        split: prod.splits)
  have p: "draw_points (arrow_from this) (calculateSteps this) = [Num 100, Num 0]"
    by (simp add: f draw_points_def reduce_steps_def)
  have a: "angle M [Num 0, Num 0, Num 100, Num 0] = Num 0"
    by (simp add: angle_def len_def rd_def js_eval Math_atan2_def)
  have "sceneFunc_arrow M [Num 0, Num 0, Num 100, Num 0] =
       [BeginPath, MoveTo (Num 0) (Num 0), LineTo (Num 100) (Num 0),
        LineTo
          (js_sub (Num 100)
             (js_mul (Num 10) (Math_cos M (js_sub (Num 0) (js_div Math_PI (Num 6))))))
          (js_sub (Num 0)
             (js_mul (Num 10) (Math_sin M (js_sub (Num 0) (js_div Math_PI (Num 6)))))),
        MoveTo (Num 100) (Num 0),
        LineTo
          (js_sub (Num 100)
             (js_mul (Num 10) (Math_cos M (js_add (Num 0) (js_div Math_PI (Num 6))))))
          (js_sub (Num 0)
             (js_mul (Num 10) (Math_sin M (js_add (Num 0) (js_div Math_PI (Num 6)))))),
        StrokeShape]"
    unfolding sceneFunc_arrow_def arrowhead_def a
    by (simp add: path_body_def len_def rd_def arrowLen_def)
  then show ?thesis
    using a by (simp add: draw_then_scene draw_facts p scene_single_point)
qed

text \<open>
  C7, at its input: what the code does when the target is at the origin's coordinates
  \<open>(x, y)\<close>. The array \<open>draw\<close> hands to the shape holds the one point \<open>[x, y]\<close>, not two
  identical points; \<open>sceneFunc\<close> does not fail, but the heading is \<open>NaN\<close> and both ends
  of the arrowhead are \<open>(NaN, NaN)\<close>. On two identical points the heading is 0.
\<close>

theorem C7_coincident:
  fixes s0 s :: store and M :: math and x y :: real
  defines "this \<equiv> arrow_to (fst (GenericArrow \<lparr>vis_x = Num x, vis_y = Num y\<rparr> s0))
                      \<lparr>vis_x = Num x, vis_y = Num y\<rparr>"
  shows "contents (snd (snd (draw this s))) (node_points (fst (draw this s))) = [Num x, Num y]
   \<and> node_key (fst (draw this s)) = ToNumber (Layout_key s)
   \<and> ctx (sceneFunc_arrow_run M (node_points (fst (draw this s))) (snd (snd (draw this s)))) =
       ctx s @ [BeginPath, MoveTo (Num x) (Num y), LineTo (Num x) (Num y), LineTo NaN NaN,
                MoveTo (Num x) (Num y), LineTo NaN NaN, StrokeShape]
   \<and> angle M [Num x, Num y] = NaN
   \<and> sceneFunc_arrow M [Num x, Num y] =
       [BeginPath, MoveTo (Num x) (Num y), LineTo (Num x) (Num y), LineTo NaN NaN,
        MoveTo (Num x) (Num y), LineTo NaN NaN, StrokeShape]
   \<and> angle M [Num x, Num y, Num x, Num y] = Num 0"
proof -
  have f: "arrow_from this = \<lparr>vis_x = Num x, vis_y = Num y\<rparr>"
    "calculateSteps this = [\<lambda>a b. (Num x, Num y)]"
    by (simp_all add: this_def arrow_to_def GenericArrow_def calculateSteps_def
        split: prod.splits)
  have p: "draw_points (arrow_from this) (calculateSteps this) = [Num x, Num y]"
    by (simp add: f draw_points_def reduce_steps_def)
  have "angle M [Num x, Num y, Num x, Num y] = Num 0"
    by (simp add: angle_def len_def rd_def js_sub_self atan2_origin)
  then show ?thesis
    by (simp add: draw_then_scene draw_facts p scene_single_point)
qed

section \<open>The arrowhead\<close>







section \<open>Drawing again\<close>

text \<open>
  C9. A call of \<open>sceneFunc\<close>, in either variant, changes the store in one way only: the
  context has received, after what it had received before, the commands \<open>sceneFunc\<close>
  computes from the array of points. No array is written, so a second call sends the same
  commands again. \<open>draw\<close> leaves the arrow, the context and every array that existed
  before the call as they were, and drawing again produces an array with the same points.
\<close>

theorem C9_render_twice:
  "sceneFunc_path_run p s = s\<lparr>ctx := ctx s @ sceneFunc_path (contents s p)\<rparr>
   \<and> sceneFunc_arrow_run M p s = s\<lparr>ctx := ctx s @ sceneFunc_arrow M (contents s p)\<rparr>
   \<and> arrays (sceneFunc_path_run p s) = arrays s
   \<and> arrays (sceneFunc_arrow_run M p s) = arrays s
   \<and> ctx (sceneFunc_path_run p (sceneFunc_path_run p s))
       = ctx s @ sceneFunc_path (contents s p) @ sceneFunc_path (contents s p)
   \<and> ctx (sceneFunc_arrow_run M p (sceneFunc_arrow_run M p s))
       = ctx s @ sceneFunc_arrow M (contents s p) @ sceneFunc_arrow M (contents s p)
   \<and> fst (snd (draw this s)) = this
   \<and> ctx (snd (snd (draw this s))) = ctx s
   \<and> (\<forall>a. a < next_addr s \<longrightarrow> arrays (snd (snd (draw this s))) a = arrays s a)
   \<and> contents (snd (snd (draw (fst (snd (draw this s))) (snd (snd (draw this s))))))
         (node_points (fst (draw (fst (snd (draw this s))) (snd (snd (draw this s))))))
       = contents (snd (snd (draw this s))) (node_points (fst (draw this s)))"
  by (simp add: sceneFunc_path_run_eq sceneFunc_arrow_run_eq ctx_append_frame draw_facts)

theorem C9_render_twice_witness:
  "(0::nat) < next_addr \<lparr>arrays = [0 \<mapsto> [Num 7, Num 9]], next_addr = 1, Layout_key = Num 0, ctx = []\<rparr>
   \<and> arrays
        (snd (snd (draw
           \<lparr>arrow_x = Num 0, arrow_y = Num 0, arrow_height = Num 0, arrow_width = Num 100,
            arrow_points = 0, arrow_from = \<lparr>vis_x = Num 0, vis_y = Num 0\<rparr>,
            arrow_target = Some \<lparr>vis_x = Num 100, vis_y = Num 0\<rparr>\<rparr>
           \<lparr>arrays = [0 \<mapsto> [Num 7, Num 9]], next_addr = 1, Layout_key = Num 0, ctx = []\<rparr>)))
        0
      = Some [Num 7, Num 9]"
  using C9_render_twice [of _ "\<lparr>arrays = [0 \<mapsto> [Num 7, Num 9]], next_addr = 1, Layout_key = Num 0, ctx = []\<rparr>"]
  by simp

lemma incr_exact:
  assumes "- (2 ^ 53) \<le> k" and "k < 2 ^ 53"
  shows "js_add (ToNumber (Num (of_int k))) (Num 1) = Num (of_int (k + 1))"
proof (cases "k + 1 = 0")
  case True
  then have "real_of_int k + 1 = 0" by (metis of_int_1 of_int_add of_int_0)
  then show ?thesis using True by (simp add: js_add_def ToNumber_def signed_zero_def)
next
  case False
  then have nz: "real_of_int (k + 1) \<noteq> 0" by simp
  have "double (of_int (k + 1))"
    using assms by (intro double_of_int_le) simp
  then have "fl (of_int (k + 1)) = Num (of_int (k + 1))" using nz by (rule fl_exact)
  then show ?thesis using nz by (simp add: js_add_def ToNumber_def)
qed

lemma draw_all_facts:
  assumes "Layout_key s = Num (of_int k)" and "- (2 ^ 53) \<le> k"
    and "k + int (length as) \<le> 2 ^ 53"
  shows "map node_key (fst (draw_all as s)) = map (\<lambda>i. Num (of_int (k + int i))) [0..<length as]
   \<and> Layout_key (snd (snd (draw_all as s))) = Num (of_int (k + int (length as)))
   \<and> fst (snd (draw_all as s)) = as
   \<and> next_addr s \<le> next_addr (snd (snd (draw_all as s)))
   \<and> (\<forall>a. a < next_addr s \<longrightarrow> arrays (snd (snd (draw_all as s))) a = arrays s a)"
  using assms
proof (induction as arbitrary: s k)
  case Nil
  then show ?case by simp
next
  case (Cons a as)
  define nd where "nd = fst (draw a s)"
  define s' where "s' = snd (snd (draw a s))"
  have d: "draw a s = (nd, a, s')"
    using draw_facts(1) [of a s] by (simp add: nd_def s'_def prod_eq_iff)
  have k1: "k < 2 ^ 53" using Cons.prems(3) by simp
  have key: "node_key nd = Num (of_int k)"
    unfolding nd_def draw_facts by (simp add: Cons.prems(1) ToNumber_def)
  have key': "Layout_key s' = Num (of_int (k + 1))"
    unfolding s'_def draw_facts Cons.prems(1) by (rule incr_exact [OF Cons.prems(2) k1])
  have nx: "next_addr s \<le> next_addr s'"
    unfolding s'_def by (rule draw_facts)
  have old: "arrays s' x = arrays s x" if "x < next_addr s" for x
    unfolding s'_def using that by (rule draw_facts)
  have ih: "map node_key (fst (draw_all as s'))
        = map (\<lambda>i. Num (of_int (k + 1 + int i))) [0..<length as]
      \<and> Layout_key (snd (snd (draw_all as s'))) = Num (of_int (k + 1 + int (length as)))
      \<and> fst (snd (draw_all as s')) = as
      \<and> next_addr s' \<le> next_addr (snd (snd (draw_all as s')))
      \<and> (\<forall>a. a < next_addr s' \<longrightarrow> arrays (snd (snd (draw_all as s'))) a = arrays s' a)"
    using Cons.prems(2,3) by (intro Cons.IH [OF key']) simp_all
  obtain nds as' s'' where da: "draw_all as s' = (nds, as', s'')"
    by (cases "draw_all as s'")
  have ih': "map node_key nds = map (\<lambda>i. Num (of_int (k + 1 + int i))) [0..<length as]"
    "Layout_key s'' = Num (of_int (k + 1 + int (length as)))" "as' = as"
    "next_addr s' \<le> next_addr s''"
    using ih by (simp_all add: da)
  have old': "arrays s'' x = arrays s' x" if "x < next_addr s'" for x
    using ih that by (simp add: da)
  have r: "draw_all (a # as) s = (nd # nds, a # as', s'')"
    by (simp add: d da)
  have u: "[0..<length (a # as)] = 0 # map Suc [0..<length as]"
    by (simp add: upt_conv_Cons map_Suc_upt del: upt_Suc)
  have m: "map node_key (nd # nds) = map (\<lambda>i. Num (of_int (k + int i))) [0..<length (a # as)]"
    unfolding u using ih'(1) key by (simp add: comp_def algebra_simps)
  have fr: "arrays s'' x = arrays s x" if "x < next_addr s" for x
  proof -
    have "x < next_addr s'" using that nx by simp
    then show ?thesis using old' [of x] old [OF that] by simp
  qed
  have "Layout_key s'' = Num (of_int (k + int (length (a # as))))"
    using ih'(2) by (simp add: algebra_simps)
  then show ?case
    unfolding r using m ih'(3,4) nx fr by simp
qed

text \<open>
  C10, as far as it holds. Let \<open>Layout.key\<close> hold the integer \<open>k\<close>, at least \<open>- 2 ^ 53\<close>.
  Drawing a list of arrows one after the other, of a length that keeps the counter at or
  below \<open>2 ^ 53\<close>, gives the nodes the consecutive keys \<open>k, k + 1, \<dots>\<close>, pairwise
  distinct, leaves the counter higher by the number of draws, and leaves every arrow and
  every array that existed before as they were. A single \<open>draw\<close> at \<open>k < 2 ^ 53\<close> uses
  \<open>k\<close> as the key and leaves \<open>k + 1\<close> in the counter.
\<close>

theorem C10_layout_key:
  assumes "Layout_key s = Num (of_int k)" and "- (2 ^ 53) \<le> k"
    and "k + int (length as) \<le> 2 ^ 53"
  shows "map node_key (fst (draw_all as s)) = map (\<lambda>i. Num (of_int (k + int i))) [0..<length as]
   \<and> distinct (map node_key (fst (draw_all as s)))
   \<and> Layout_key (snd (snd (draw_all as s))) = Num (of_int (k + int (length as)))
   \<and> fst (snd (draw_all as s)) = as
   \<and> (\<forall>a. a < next_addr s \<longrightarrow> arrays (snd (snd (draw_all as s))) a = arrays s a)
   \<and> (k < 2 ^ 53 \<longrightarrow>
        node_key (fst (draw this s)) = Num (of_int k)
        \<and> Layout_key (snd (snd (draw this s))) = Num (of_int (k + 1))
        \<and> fst (snd (draw this s)) = this)"
proof -
  have "inj_on (\<lambda>i. Num (real_of_int (k + int i))) (set [0..<length as])"
    by (rule inj_onI) simp
  then have "distinct (map (\<lambda>i. Num (real_of_int (k + int i))) [0..<length as])"
    by (simp add: distinct_map)
  moreover have "Layout_key (snd (snd (draw this s))) = Num (of_int (k + 1))" if "k < 2 ^ 53"
    unfolding draw_facts assms(1) by (rule incr_exact [OF assms(2) that])
  ultimately show ?thesis
    using draw_all_facts [OF assms] by (simp add: draw_facts assms(1) ToNumber_def)
qed

theorem C10_layout_key_witness:
  "Layout_key \<lparr>arrays = [0 \<mapsto> []], next_addr = 1, Layout_key = Num 0, ctx = []\<rparr> = Num (of_int 0)
   \<and> - (2 ^ 53) \<le> (0::int)
   \<and> 0 + int (length [\<lparr>arrow_x = Num 0, arrow_y = Num 0, arrow_height = Num 0, arrow_width = Num 0,
             arrow_points = 0, arrow_from = \<lparr>vis_x = Num 0, vis_y = Num 0\<rparr>,
             arrow_target = None\<rparr>, \<lparr>arrow_x = Num 0, arrow_y = Num 0, arrow_height = Num 0, arrow_width = Num 0,
             arrow_points = 0, arrow_from = \<lparr>vis_x = Num 0, vis_y = Num 0\<rparr>,
             arrow_target = None\<rparr>]) \<le> 2 ^ 53
   \<and> (0::int) < 2 ^ 53
   \<and> map node_key (fst (draw_all [\<lparr>arrow_x = Num 0, arrow_y = Num 0, arrow_height = Num 0, arrow_width = Num 0,
             arrow_points = 0, arrow_from = \<lparr>vis_x = Num 0, vis_y = Num 0\<rparr>,
             arrow_target = None\<rparr>, \<lparr>arrow_x = Num 0, arrow_y = Num 0, arrow_height = Num 0, arrow_width = Num 0,
             arrow_points = 0, arrow_from = \<lparr>vis_x = Num 0, vis_y = Num 0\<rparr>,
             arrow_target = None\<rparr>] \<lparr>arrays = [0 \<mapsto> []], next_addr = 1, Layout_key = Num 0, ctx = []\<rparr>)) = [Num 0, Num 1]
   \<and> Layout_key (snd (snd (draw_all [\<lparr>arrow_x = Num 0, arrow_y = Num 0, arrow_height = Num 0, arrow_width = Num 0,
             arrow_points = 0, arrow_from = \<lparr>vis_x = Num 0, vis_y = Num 0\<rparr>,
             arrow_target = None\<rparr>, \<lparr>arrow_x = Num 0, arrow_y = Num 0, arrow_height = Num 0, arrow_width = Num 0,
             arrow_points = 0, arrow_from = \<lparr>vis_x = Num 0, vis_y = Num 0\<rparr>,
             arrow_target = None\<rparr>] \<lparr>arrays = [0 \<mapsto> []], next_addr = 1, Layout_key = Num 0, ctx = []\<rparr>))) = Num 2
   \<and> arrays (snd (snd (draw_all [\<lparr>arrow_x = Num 0, arrow_y = Num 0, arrow_height = Num 0, arrow_width = Num 0,
             arrow_points = 0, arrow_from = \<lparr>vis_x = Num 0, vis_y = Num 0\<rparr>,
             arrow_target = None\<rparr>, \<lparr>arrow_x = Num 0, arrow_y = Num 0, arrow_height = Num 0, arrow_width = Num 0,
             arrow_points = 0, arrow_from = \<lparr>vis_x = Num 0, vis_y = Num 0\<rparr>,
             arrow_target = None\<rparr>] \<lparr>arrays = [0 \<mapsto> []], next_addr = 1, Layout_key = Num 0, ctx = []\<rparr>))) 0 = Some []"
  using C10_layout_key [of "\<lparr>arrays = [0 \<mapsto> []], next_addr = 1, Layout_key = Num 0, ctx = []\<rparr>" 0 "[\<lparr>arrow_x = Num 0, arrow_y = Num 0, arrow_height = Num 0, arrow_width = Num 0,
             arrow_points = 0, arrow_from = \<lparr>vis_x = Num 0, vis_y = Num 0\<rparr>,
             arrow_target = None\<rparr>, \<lparr>arrow_x = Num 0, arrow_y = Num 0, arrow_height = Num 0, arrow_width = Num 0,
             arrow_points = 0, arrow_from = \<lparr>vis_x = Num 0, vis_y = Num 0\<rparr>,
             arrow_target = None\<rparr>]"]
  by simp

lemma incr_lost: "js_add (ToNumber (Num (2 ^ 53))) (Num 1) = Num (2 ^ 53)"
proof -
  have "js_add (ToNumber (Num (2 ^ 53))) (Num 1) = fl (2 ^ 53 + 1)"
    by (simp add: js_add_def ToNumber_def)
  then show ?thesis by (simp only: fl_tie)
qed

text \<open>
  C10 as the specification states it, for every call, fails once the counter has reached
  \<open>2 ^ 53\<close>: \<open>2 ^ 53 + 1\<close> is not a double and rounds back to \<open>2 ^ 53\<close>, so
  \<open>Layout.key++\<close> leaves the counter where it was and the next \<open>draw\<close> gets the same
  key.
\<close>

theorem C10_counterexample:
  "\<forall>this s.
     Layout_key (snd (snd (draw this (s\<lparr>Layout_key := Num (2 ^ 53)\<rparr>)))) = Num (2 ^ 53)
     \<and> node_key (fst (draw this (snd (snd (draw this (s\<lparr>Layout_key := Num (2 ^ 53)\<rparr>))))))
         = node_key (fst (draw this (s\<lparr>Layout_key := Num (2 ^ 53)\<rparr>)))"
proof (intro allI)
  fix this :: arrow and s :: store
  let ?s = "s\<lparr>Layout_key := Num (2 ^ 53)\<rparr>"
  have "Layout_key (snd (snd (draw this ?s))) = js_add (ToNumber (Num (2 ^ 53))) (Num 1)"
    unfolding draw_facts by simp
  then have k: "Layout_key (snd (snd (draw this ?s))) = Num (2 ^ 53)"
    by (simp only: incr_lost)
  have "node_key (fst (draw this (snd (snd (draw this ?s))))) = ToNumber (Num (2 ^ 53))"
    by (simp only: draw_facts(3) k)
  moreover have "node_key (fst (draw this ?s)) = ToNumber (Num (2 ^ 53))"
    unfolding draw_facts by simp
  ultimately show "Layout_key (snd (snd (draw this ?s))) = Num (2 ^ 53)
     \<and> node_key (fst (draw this (snd (snd (draw this ?s))))) = node_key (fst (draw this ?s))"
    using k by simp
qed

end
